theory Spec2Isabelle
  imports Main "HOL-Library.Monad_Syntax" "HOL-Library.Sublist" "HOL-Library.Multiset"
begin

section \<open>JavaScript values as the program sees them\<close>

text \<open>
  The program works on whatever \<open>JSON.parse\<close> returns for a line of a session log, and
  reads it without any schema check.  A value is therefore modelled as the language has
  it: \<open>undefined\<close> (what reading a missing property gives), \<open>null\<close>, a boolean, a number,
  a string, an array or an object.

  \<^item> A number is represented by its canonical decimal text, the result of the language's
    own number-to-string conversion.  The program observes a number only through its
    truthiness, through equality and through that conversion, and all three are
    functions of the text (\<open>-0\<close> prints as \<open>0\<close> and is falsy like \<open>0\<close>).
  \<^item> A string is a list of code units; a \<open>char\<close> stands for one code unit below 256.
  \<^item> An object lists its own properties; a property is looked up with \<open>map_of\<close>.

  A function of the program that can throw returns an \<open>option\<close>: \<open>None\<close> is the
  \<open>TypeError\<close> that leaves the function (none of the functions modelled here catches
  an exception).
\<close>

datatype jsval =
    JUndefined
  | JNull
  | JBool bool
  | JNum string
  | JStr string
  | JArr "jsval list"
  | JObj "(string \<times> jsval) list"

fun nullish :: "jsval \<Rightarrow> bool" where
  "nullish JUndefined = True"
| "nullish JNull = True"
| "nullish _ = False"

text \<open>Truthiness, as \<open>if (v)\<close>, \<open>!v\<close>, \<open>v || w\<close> and \<open>v && w\<close> test it.\<close>

fun truthy :: "jsval \<Rightarrow> bool" where
  "truthy JUndefined = False"
| "truthy JNull = False"
| "truthy (JBool b) = b"
| "truthy (JNum n) = (n \<noteq> ''0'' \<and> n \<noteq> ''NaN'')"
| "truthy (JStr s) = (s \<noteq> [])"
| "truthy (JArr xs) = True"
| "truthy (JObj kvs) = True"

text \<open>
  Property access.  The program reads only the property names of the log format
  (\<open>type\<close>, \<open>message\<close>, \<open>content\<close>, \<open>name\<close>, \<open>id\<close>, \<open>input\<close>, \<open>questions\<close>, \<open>question\<close>,
  \<open>timestamp\<close>, \<open>tool_use_id\<close>, \<open>is_error\<close>, \<open>toolUseResult\<close>, \<open>answers\<close>, \<open>text\<close>,
  \<open>command\<close>, \<open>file_path\<close>, \<open>pattern\<close>, \<open>query\<close>, \<open>url\<close>); none of them is a property
  of a prototype object, so on an object the result is the own property or \<open>undefined\<close>,
  and on a boolean, number, string or array it is \<open>undefined\<close>.

  \<open>field v f\<close> is the value of \<open>v?.f\<close>; it is also the value of \<open>v.f\<close> wherever \<open>v\<close> is
  known not to be \<open>null\<close> or \<open>undefined\<close>.  \<open>getp v f\<close> is \<open>v.f\<close> itself, which throws on
  \<open>null\<close> and \<open>undefined\<close>.
\<close>

fun field :: "jsval \<Rightarrow> string \<Rightarrow> jsval" where
  "field (JObj kvs) f = (case map_of kvs f of None \<Rightarrow> JUndefined | Some v \<Rightarrow> v)"
| "field _ f = JUndefined"

definition getp :: "jsval \<Rightarrow> string \<Rightarrow> jsval option" where
  "getp v f = (if nullish v then None else Some (field v f))"

text \<open>\<open>v || []\<close>\<close>

definition or_empty :: "jsval \<Rightarrow> jsval" where
  "or_empty v = (if truthy v then v else JArr [])"

text \<open>
  What \<open>for (const q of v)\<close> iterates over: the elements of an array, the characters of a
  string; any other value is not iterable and the loop throws.
\<close>

fun iterate :: "jsval \<Rightarrow> jsval list option" where
  "iterate (JArr xs) = Some xs"
| "iterate (JStr s) = Some (map (\<lambda>c. JStr [c]) s)"
| "iterate _ = None"

fun join_comma :: "string list \<Rightarrow> string" where
  "join_comma [] = []"
| "join_comma [s] = s"
| "join_comma (s # t # ss) = s @ '','' @ join_comma (t # ss)"

text \<open>
  String conversion, as a template literal and a computed property key do it.  An array
  is joined with commas, \<open>null\<close> and \<open>undefined\<close> elements printing as nothing.  An object
  prints as \<open>[object Object]\<close>, unless it has an own property \<open>toString\<close>: a parsed value
  is never callable, so the conversion throws.
\<close>

fun to_string :: "jsval \<Rightarrow> string option" where
  "to_string JUndefined = Some ''undefined''"
| "to_string JNull = Some ''null''"
| "to_string (JBool b) = Some (if b then ''true'' else ''false'')"
| "to_string (JNum n) = Some n"
| "to_string (JStr s) = Some s"
| "to_string (JArr xs) =
     map_option join_comma (those (map (\<lambda>x. if nullish x then Some [] else to_string x) xs))"
| "to_string (JObj kvs) =
     (if map_of kvs ''toString'' = None then Some ''[object Object]'' else None)"

section \<open>Strings\<close>

text \<open>
  \<open>s.indexOf(pat, from)\<close>: the first position at or after \<open>from\<close> where \<open>pat\<close> occurs,
  \<open>None\<close> for the result \<open>-1\<close>.  \<open>find_from pat s i\<close> searches the suffix \<open>s\<close> that starts at
  position \<open>i\<close> of the whole string.
\<close>

fun find_from :: "string \<Rightarrow> string \<Rightarrow> nat \<Rightarrow> nat option" where
  "find_from pat [] i = (if pat = [] then Some i else None)"
| "find_from pat (c # cs) i = (if prefix pat (c # cs) then Some i else find_from pat cs (Suc i))"

definition indexOf :: "string \<Rightarrow> string \<Rightarrow> nat \<Rightarrow> nat option" where
  "indexOf s pat from = (let k = min from (length s) in find_from pat (drop k s) k)"

text \<open>\<open>s.lastIndexOf(c)\<close> for a one-character pattern.\<close>

fun last_from :: "char \<Rightarrow> string \<Rightarrow> nat \<Rightarrow> nat option" where
  "last_from c [] i = None"
| "last_from c (d # ds) i =
     (case last_from c ds (Suc i) of
        Some j \<Rightarrow> Some j
      | None \<Rightarrow> if d = c then Some i else None)"

definition lastIndexOf :: "string \<Rightarrow> char \<Rightarrow> nat option" where
  "lastIndexOf s c = last_from c s 0"

text \<open>\<open>s.substring(a, b)\<close>: both ends are clamped to the length and swapped if out of order.\<close>

definition substring :: "string \<Rightarrow> nat \<Rightarrow> nat \<Rightarrow> string" where
  "substring s a b =
     (let a' = min a (length s); b' = min b (length s);
          lo = min a' b'; hi = max a' b'
      in take (hi - lo) (drop lo s))"

definition dquote :: char where
  "dquote = CHR 0x22"

definition quoted :: "string \<Rightarrow> string" where
  "quoted s = dquote # s @ [dquote]"

section \<open>The fallback answer parser\<close>

text \<open>
  The \<open>answers\<close> object that \<open>parseAnswersFromContent\<close> fills is a finite map from
  property keys to strings.  \<open>answers[k] = v\<close> creates or overwrites the own property \<open>k\<close>,
  except for the key \<open>__proto__\<close>: that assignment reaches the inherited setter, which
  ignores a string, and the object is left as it was.
\<close>

type_synonym answer_map = "string \<rightharpoonup> string"

definition assign_answer :: "answer_map \<Rightarrow> string \<Rightarrow> string \<Rightarrow> answer_map" where
  "assign_answer answers k v = (if k = ''__proto__'' then answers else answers(k \<mapsto> v))"

text \<open>The delimiter \<open>", "\<close> and the pattern \<open>"<qText>"="\<close> of the source.\<close>

definition delimiter :: string where
  "delimiter = dquote # '', '' @ [dquote]"

definition pattern_of :: "string \<Rightarrow> string" where
  "pattern_of qText = quoted qText @ ''='' @ [dquote]"

text \<open>
  The end of the answer that starts at \<open>start\<close>: the next delimiter, else the last
  quotation mark if it lies after \<open>start\<close>, else the end of the string.
\<close>

definition answer_end :: "string \<Rightarrow> nat \<Rightarrow> nat" where
  "answer_end contentStr start =
     (case indexOf contentStr delimiter start of
        Some e \<Rightarrow> e
      | None \<Rightarrow>
          (case lastIndexOf contentStr dquote of
             None \<Rightarrow> length contentStr
           | Some e \<Rightarrow> if e \<le> start then length contentStr else e))"

text \<open>One turn of the loop of \<open>parseAnswersFromContent\<close>, for the question \<open>q\<close>.\<close>

definition parse_question :: "string \<Rightarrow> jsval \<Rightarrow> answer_map \<Rightarrow> answer_map option" where
  "parse_question contentStr q answers = do {
     qText \<leftarrow> getp q ''question'';
     key \<leftarrow> to_string qText;
     (case indexOf contentStr (pattern_of key) 0 of
        None \<Rightarrow> Some answers
      | Some idx \<Rightarrow>
          let start = idx + length (pattern_of key);
              end = answer_end contentStr start
          in Some (assign_answer answers key (substring contentStr start end)))
   }"

fun parse_questions :: "string \<Rightarrow> jsval list \<Rightarrow> answer_map \<Rightarrow> answer_map option" where
  "parse_questions contentStr [] answers = Some answers"
| "parse_questions contentStr (q # qs) answers = do {
     answers' \<leftarrow> parse_question contentStr q answers;
     parse_questions contentStr qs answers'
   }"

definition parseAnswersFromContent :: "jsval \<Rightarrow> jsval \<Rightarrow> answer_map option" where
  "parseAnswersFromContent contentStr questions =
     (case contentStr of
        JStr s \<Rightarrow> do { qs \<leftarrow> iterate questions; parse_questions s qs Map.empty }
      | _ \<Rightarrow> Some Map.empty)"

section \<open>The Correlator\<close>

text \<open>What pass 1 of \<open>extractQAPairs\<close> stores for a question request.\<close>

record ask_data =
  ask_questions :: jsval
  ask_lineIndex :: nat
  ask_timestamp :: jsval
  ask_toolUseId :: jsval

text \<open>
  The answers of a pair: the side-channel value \<open>entry.toolUseResult.answers\<close> as it is,
  or the object built by the fallback parser.
\<close>

datatype resolved_answers = Structured jsval | Parsed answer_map

record qa_pair =
  questions :: jsval
  answers :: resolved_answers
  askTimestamp :: jsval
  answerTimestamp :: jsval
  askLineIndex :: nat
  answerLineIndex :: nat
  toolUseId :: jsval

text \<open>
  \<open>toolUseMap\<close> is a \<open>Map\<close>.  It compares keys as the language's \<open>SameValueZero\<close> does:
  \<open>undefined\<close>, \<open>null\<close>, booleans, numbers and strings by value, arrays and objects by
  identity.  An id that is looked up is read from another parsed block than any id that
  was stored, so an entry stored under an array or an object is never found again; the
  model leaves such an entry out.
\<close>

type_synonym tool_use_map = "jsval \<rightharpoonup> ask_data"

fun primitive :: "jsval \<Rightarrow> bool" where
  "primitive (JArr xs) = False"
| "primitive (JObj kvs) = False"
| "primitive _ = True"

definition map_set :: "tool_use_map \<Rightarrow> jsval \<Rightarrow> ask_data \<Rightarrow> tool_use_map" where
  "map_set toolUseMap k v = (if primitive k then toolUseMap(k \<mapsto> v) else toolUseMap)"

text \<open>Pass 1: the body of the loop over the blocks of an assistant record.\<close>

definition index_block :: "nat \<Rightarrow> jsval \<Rightarrow> jsval \<Rightarrow> tool_use_map \<Rightarrow> tool_use_map option" where
  "index_block i entry block toolUseMap = do {
     ty \<leftarrow> getp block ''type'';
     if ty = JStr ''tool_use'' \<and> field block ''name'' = JStr ''AskUserQuestion''
     then Some (map_set toolUseMap (field block ''id'')
            \<lparr> ask_questions = or_empty (field (field block ''input'') ''questions''),
              ask_lineIndex = i,
              ask_timestamp = field entry ''timestamp'',
              ask_toolUseId = field block ''id'' \<rparr>)
     else Some toolUseMap
   }"

fun index_blocks :: "nat \<Rightarrow> jsval \<Rightarrow> jsval list \<Rightarrow> tool_use_map \<Rightarrow> tool_use_map option" where
  "index_blocks i entry [] toolUseMap = Some toolUseMap"
| "index_blocks i entry (block # blocks) toolUseMap = do {
     toolUseMap' \<leftarrow> index_block i entry block toolUseMap;
     index_blocks i entry blocks toolUseMap'
   }"

text \<open>Pass 1: the body of the loop over the records.\<close>

definition index_entry :: "nat \<Rightarrow> jsval \<Rightarrow> tool_use_map \<Rightarrow> tool_use_map option" where
  "index_entry i entry toolUseMap = do {
     ty \<leftarrow> getp entry ''type'';
     if ty \<noteq> JStr ''assistant'' \<or> \<not> truthy (field (field entry ''message'') ''content'')
     then Some toolUseMap
     else (case field (field entry ''message'') ''content'' of
             JArr blocks \<Rightarrow> index_blocks i entry blocks toolUseMap
           | _ \<Rightarrow> Some toolUseMap)
   }"

fun index_entries :: "nat \<Rightarrow> jsval list \<Rightarrow> tool_use_map \<Rightarrow> tool_use_map option" where
  "index_entries i [] toolUseMap = Some toolUseMap"
| "index_entries i (entry # entries) toolUseMap = do {
     toolUseMap' \<leftarrow> index_entry i entry toolUseMap;
     index_entries (Suc i) entries toolUseMap'
   }"

text \<open>The answers of a response block: the structured side channel first, else the parser.\<close>

definition resolve_answers :: "jsval \<Rightarrow> jsval \<Rightarrow> ask_data \<Rightarrow> resolved_answers option" where
  "resolve_answers entry block askData =
     (if truthy (field (field entry ''toolUseResult'') ''answers'')
      then Some (Structured (field (field entry ''toolUseResult'') ''answers''))
      else map_option Parsed
             (parseAnswersFromContent (field block ''content'') (ask_questions askData)))"

definition make_pair :: "nat \<Rightarrow> jsval \<Rightarrow> ask_data \<Rightarrow> resolved_answers \<Rightarrow> qa_pair" where
  "make_pair i entry askData ans =
     \<lparr> questions = ask_questions askData,
       answers = ans,
       askTimestamp = ask_timestamp askData,
       answerTimestamp = field entry ''timestamp'',
       askLineIndex = ask_lineIndex askData,
       answerLineIndex = i,
       toolUseId = ask_toolUseId askData \<rparr>"

text \<open>Pass 2: the body of the loop over the blocks of a user record.\<close>

definition match_block ::
  "tool_use_map \<Rightarrow> nat \<Rightarrow> jsval \<Rightarrow> jsval \<Rightarrow> qa_pair list \<Rightarrow> qa_pair list option" where
  "match_block toolUseMap i entry block pairs = do {
     ty \<leftarrow> getp block ''type'';
     (case (if ty = JStr ''tool_result'' then toolUseMap (field block ''tool_use_id'') else None) of
        None \<Rightarrow> Some pairs
      | Some askData \<Rightarrow>
          if truthy (field block ''is_error'') then Some pairs
          else do {
            ans \<leftarrow> resolve_answers entry block askData;
            Some (pairs @ [make_pair i entry askData ans])
          })
   }"

fun match_blocks ::
  "tool_use_map \<Rightarrow> nat \<Rightarrow> jsval \<Rightarrow> jsval list \<Rightarrow> qa_pair list \<Rightarrow> qa_pair list option" where
  "match_blocks toolUseMap i entry [] pairs = Some pairs"
| "match_blocks toolUseMap i entry (block # blocks) pairs = do {
     pairs' \<leftarrow> match_block toolUseMap i entry block pairs;
     match_blocks toolUseMap i entry blocks pairs'
   }"

text \<open>Pass 2: the body of the loop over the records.\<close>

definition match_entry ::
  "tool_use_map \<Rightarrow> nat \<Rightarrow> jsval \<Rightarrow> qa_pair list \<Rightarrow> qa_pair list option" where
  "match_entry toolUseMap i entry pairs = do {
     ty \<leftarrow> getp entry ''type'';
     if ty \<noteq> JStr ''user'' \<or> \<not> truthy (field (field entry ''message'') ''content'')
     then Some pairs
     else (case field (field entry ''message'') ''content'' of
             JArr blocks \<Rightarrow> match_blocks toolUseMap i entry blocks pairs
           | _ \<Rightarrow> Some pairs)
   }"

fun match_entries ::
  "tool_use_map \<Rightarrow> nat \<Rightarrow> jsval list \<Rightarrow> qa_pair list \<Rightarrow> qa_pair list option" where
  "match_entries toolUseMap i [] pairs = Some pairs"
| "match_entries toolUseMap i (entry # entries) pairs = do {
     pairs' \<leftarrow> match_entry toolUseMap i entry pairs;
     match_entries toolUseMap (Suc i) entries pairs'
   }"

definition extractQAPairs :: "jsval list \<Rightarrow> qa_pair list option" where
  "extractQAPairs parsedLines = do {
     toolUseMap \<leftarrow> index_entries 0 parsedLines Map.empty;
     match_entries toolUseMap 0 parsedLines []
   }"

section \<open>The Timeline Builder\<close>

text \<open>
  \<open>str.replace(/<[^>]+>/g, '')\<close>: from left to right, each \<open><\<close> that is followed by at
  least one character other than \<open>>\<close> and, after the longest run of such characters, by
  a \<open>>\<close>, is removed together with the run and the \<open>>\<close>; the search goes on behind it.
\<close>

function remove_tags :: "string \<Rightarrow> string" where
  "remove_tags [] = []"
| "remove_tags (c # cs) =
     (let run = takeWhile (\<lambda>d. d \<noteq> CHR ''>'') cs;
          rest = dropWhile (\<lambda>d. d \<noteq> CHR ''>'') cs
      in if c = CHR ''<'' \<and> run \<noteq> [] \<and> rest \<noteq> []
         then remove_tags (tl rest)
         else c # remove_tags cs)"
  by pat_completeness auto
termination
  by (relation "measure length")
     (auto simp: less_Suc_eq_le intro: le_trans[OF diff_le_self length_dropWhile_le])

text \<open>
  \<open>s.trim()\<close>.  The white space of the language among the code units below 256: tab, line
  feed, vertical tab, form feed, carriage return, space and the no-break space.
\<close>

definition is_space :: "char \<Rightarrow> bool" where
  "is_space c = ((of_char c :: nat) \<in> {9, 10, 11, 12, 13, 32, 160})"

definition trim :: "string \<Rightarrow> string" where
  "trim s = rev (dropWhile is_space (rev (dropWhile is_space s)))"

text \<open>
  \<open>stripTags\<close>.  A falsy argument gives the empty string; a truthy value that is not a
  string has no method \<open>replace\<close>, and the call throws.
\<close>

definition stripTags :: "jsval \<Rightarrow> string option" where
  "stripTags str =
     (if \<not> truthy str then Some []
      else (case str of JStr s \<Rightarrow> Some (trim (remove_tags s)) | _ \<Rightarrow> None))"

text \<open>
  \<open>v?.trim()\<close>: \<open>undefined\<close> for \<open>null\<close> and \<open>undefined\<close>, the trimmed string for a string;
  any other value has no method \<open>trim\<close>, and the call throws.
\<close>

definition opt_trim :: "jsval \<Rightarrow> jsval option" where
  "opt_trim v =
     (if nullish v then Some JUndefined
      else (case v of JStr s \<Rightarrow> Some (JStr (trim s)) | _ \<Rightarrow> None))"

text \<open>
  The test \<open>/^(SessionStart|currentDate|Today|The following|As you answer)/i\<close>: one of the
  five words is a prefix of the text, letters compared without case.  The words are
  ASCII, and a code unit from 128 on never matches an ASCII letter.
\<close>

definition upper :: "char \<Rightarrow> char" where
  "upper c =
     (let n = (of_char c :: nat) in if 97 \<le> n \<and> n \<le> 122 then char_of (n - 32) else c)"

definition boilerplate_prefixes :: "string list" where
  "boilerplate_prefixes =
     [''SessionStart'', ''currentDate'', ''Today'', ''The following'', ''As you answer'']"

definition is_boilerplate :: "string \<Rightarrow> bool" where
  "is_boilerplate s = (\<exists>p \<in> set boilerplate_prefixes. prefix (map upper p) (map upper s))"

text \<open>
  \<open>v.slice(0, 120)\<close>: the first 120 code units of a string, the first 120 elements of an
  array; any other truthy value has no method \<open>slice\<close>, and the call throws.
\<close>

definition slice120 :: "jsval \<Rightarrow> jsval option" where
  "slice120 v =
     (case v of
        JStr s \<Rightarrow> Some (JStr (take 120 s))
      | JArr xs \<Rightarrow> Some (JArr (take 120 xs))
      | _ \<Rightarrow> None)"

text \<open>
  \<open>summarizeToolInput\<close>.  \<open>JSON.stringify\<close> is a function of the language's library; it is
  the parameter \<open>stringify\<close>.
\<close>

definition summarizeToolInput :: "(jsval \<Rightarrow> string) \<Rightarrow> jsval \<Rightarrow> jsval option" where
  "summarizeToolInput stringify block = do {
     input \<leftarrow> getp block ''input'';
     if \<not> truthy input then Some (JStr [])
     else if truthy (field input ''command'') then slice120 (field input ''command'')
     else if truthy (field input ''file_path'') then Some (field input ''file_path'')
     else if truthy (field input ''pattern'')
       then map_option (\<lambda>p. JStr (''pattern: '' @ p)) (to_string (field input ''pattern''))
     else if truthy (field input ''query'') then slice120 (field input ''query'')
     else if truthy (field input ''url'') then Some (field input ''url'')
     else if truthy (field input ''content'') then slice120 (field input ''content'')
     else Some (JStr (take 120 (stringify input)))
   }"

text \<open>
  A timeline entry, one constructor for each value of its \<open>type\<close> tag.  The arguments
  are, in this order:
  \<^item> \<open>assistant_text\<close>, \<open>user_text\<close>: \<open>timestamp\<close>, \<open>content\<close>, \<open>lineIndex\<close>;
  \<^item> \<open>ask_user_question\<close>: \<open>timestamp\<close>, \<open>toolUseId\<close>, \<open>questions\<close>, \<open>lineIndex\<close>;
  \<^item> \<open>tool_use\<close>: \<open>timestamp\<close>, \<open>toolName\<close>, \<open>content\<close>, \<open>lineIndex\<close>;
  \<^item> \<open>user_answer\<close>: \<open>timestamp\<close>, \<open>toolUseId\<close>, \<open>answers\<close>, \<open>lineIndex\<close>.
\<close>

datatype timeline_entry =
    assistant_text jsval string nat
  | ask_user_question jsval jsval jsval nat
  | tool_use jsval jsval jsval nat
  | user_text jsval string nat
  | user_answer jsval jsval jsval nat

fun entry_timestamp :: "timeline_entry \<Rightarrow> jsval" where
  "entry_timestamp (assistant_text ts c i) = ts"
| "entry_timestamp (ask_user_question ts k qs i) = ts"
| "entry_timestamp (tool_use ts n c i) = ts"
| "entry_timestamp (user_text ts c i) = ts"
| "entry_timestamp (user_answer ts k a i) = ts"

fun entry_lineIndex :: "timeline_entry \<Rightarrow> nat" where
  "entry_lineIndex (assistant_text ts c i) = i"
| "entry_lineIndex (ask_user_question ts k qs i) = i"
| "entry_lineIndex (tool_use ts n c i) = i"
| "entry_lineIndex (user_text ts c i) = i"
| "entry_lineIndex (user_answer ts k a i) = i"

text \<open>The body of the loop over the blocks of an assistant record.\<close>

definition assistant_block ::
  "(jsval \<Rightarrow> string) \<Rightarrow> nat \<Rightarrow> jsval \<Rightarrow> jsval \<Rightarrow> timeline_entry list \<Rightarrow> timeline_entry list option"
where
  "assistant_block stringify i entry block timeline = do {
     ty \<leftarrow> getp block ''type'';
     if ty = JStr ''thinking'' then Some timeline
     else do {
       trimmed \<leftarrow> (if ty = JStr ''text'' then opt_trim (field block ''text'') else Some JUndefined);
       if ty = JStr ''text'' \<and> truthy trimmed then do {
         cleaned \<leftarrow> stripTags (field block ''text'');
         if length cleaned < 3 then Some timeline
         else Some (timeline @ [assistant_text (field entry ''timestamp'') cleaned i])
       }
       else if ty = JStr ''tool_use'' then
         if field block ''name'' = JStr ''AskUserQuestion''
         then Some (timeline @
                [ask_user_question (field entry ''timestamp'') (field block ''id'')
                   (or_empty (field (field block ''input'') ''questions'')) i])
         else do {
           snippet \<leftarrow> summarizeToolInput stringify block;
           Some (timeline @ [tool_use (field entry ''timestamp'') (field block ''name'') snippet i])
         }
       else Some timeline
     }
   }"

fun assistant_blocks ::
  "(jsval \<Rightarrow> string) \<Rightarrow> nat \<Rightarrow> jsval \<Rightarrow> jsval list \<Rightarrow> timeline_entry list \<Rightarrow> timeline_entry list option"
where
  "assistant_blocks stringify i entry [] timeline = Some timeline"
| "assistant_blocks stringify i entry (block # blocks) timeline = do {
     timeline' \<leftarrow> assistant_block stringify i entry block timeline;
     assistant_blocks stringify i entry blocks timeline'
   }"

text \<open>The body of the loop over the blocks of a user record whose content is an array.\<close>

definition user_block ::
  "nat \<Rightarrow> jsval \<Rightarrow> jsval \<Rightarrow> timeline_entry list \<Rightarrow> timeline_entry list option"
where
  "user_block i entry block timeline = do {
     ty \<leftarrow> getp block ''type'';
     if ty = JStr ''text'' then do {
       cleaned \<leftarrow> stripTags (if truthy (field block ''text'') then field block ''text'' else JStr []);
       if length cleaned < 3 then Some timeline
       else if is_boilerplate cleaned then Some timeline
       else Some (timeline @ [user_text (field entry ''timestamp'') cleaned i])
     }
     else if ty = JStr ''tool_result'' then
       if truthy (field entry ''toolUseResult'')
       then Some (timeline @
              [user_answer (field entry ''timestamp'') (field block ''tool_use_id'')
                 (if truthy (field (field entry ''toolUseResult'') ''answers'')
                  then field (field entry ''toolUseResult'') ''answers'' else JObj []) i])
       else Some timeline
     else Some timeline
   }"

fun user_blocks ::
  "nat \<Rightarrow> jsval \<Rightarrow> jsval list \<Rightarrow> timeline_entry list \<Rightarrow> timeline_entry list option"
where
  "user_blocks i entry [] timeline = Some timeline"
| "user_blocks i entry (block # blocks) timeline = do {
     timeline' \<leftarrow> user_block i entry block timeline;
     user_blocks i entry blocks timeline'
   }"

text \<open>The body of the loop of \<open>buildSessionTimeline\<close> over the records.\<close>

definition timeline_record ::
  "(jsval \<Rightarrow> string) \<Rightarrow> nat \<Rightarrow> jsval \<Rightarrow> timeline_entry list \<Rightarrow> timeline_entry list option"
where
  "timeline_record stringify i entry timeline = do {
     message \<leftarrow> getp entry ''message'';
     if \<not> truthy message \<or> \<not> truthy (field entry ''timestamp'') then Some timeline
     else if field entry ''type'' = JStr ''file-history-snapshot'' then Some timeline
     else
       let role = field entry ''type''; content = field message ''content'' in
       if role = JStr ''assistant'' then
         (case content of
            JArr blocks \<Rightarrow> assistant_blocks stringify i entry blocks timeline
          | _ \<Rightarrow> Some timeline)
       else if role = JStr ''user'' then
         (case content of
            JStr s \<Rightarrow> do {
              cleaned \<leftarrow> stripTags content;
              if length cleaned \<ge> 3
              then Some (timeline @ [user_text (field entry ''timestamp'') cleaned i])
              else Some timeline
            }
          | JArr blocks \<Rightarrow> user_blocks i entry blocks timeline
          | _ \<Rightarrow> Some timeline)
       else Some timeline
   }"

fun timeline_records ::
  "(jsval \<Rightarrow> string) \<Rightarrow> nat \<Rightarrow> jsval list \<Rightarrow> timeline_entry list \<Rightarrow> timeline_entry list option"
where
  "timeline_records stringify i [] timeline = Some timeline"
| "timeline_records stringify i (entry # entries) timeline = do {
     timeline' \<leftarrow> timeline_record stringify i entry timeline;
     timeline_records stringify (Suc i) entries timeline'
   }"

definition buildSessionTimeline :: "(jsval \<Rightarrow> string) \<Rightarrow> jsval list \<Rightarrow> timeline_entry list option" where
  "buildSessionTimeline stringify parsedLines = timeline_records stringify 0 parsedLines []"

section \<open>The Session Aggregator\<close>

record session_meta =
  sessionId :: string
  projectDir :: string
  projectName :: string
  slug :: jsval
  cwd :: jsval
  startTime :: jsval
  firstUserMessage :: string

record session =
  meta :: session_meta
  qaPairs :: "qa_pair list"
  timeline :: "timeline_entry list"













section \<open>Notions used to state the properties\<close>

text \<open>\<open>pat\<close> occurs in \<open>s\<close> at position \<open>k\<close>.\<close>

definition occurs :: "string \<Rightarrow> string \<Rightarrow> nat \<Rightarrow> bool" where
  "occurs pat s k = (k \<le> length s \<and> prefix pat (drop k s))"

text \<open>
  The fallback path in the words of the specification: \<open>a\<close> is the answer to the
  question text \<open>q\<close> in \<open>txt\<close> when the substring \<open>"q"="\<close> is located (at its first
  occurrence) and \<open>a\<close> is everything from behind it up to the next occurrence of the
  delimiter \<open>", "\<close>, or, if there is no further delimiter, up to the last quotation mark
  of the string, or, failing that, up to the end of the string.  The second rule needs a
  last quotation mark that does not lie before the first position of the answer; the mark
  may stand at that very position, and the answer is then empty.
\<close>

definition spec_answer :: "string \<Rightarrow> string \<Rightarrow> string \<Rightarrow> bool" where
  "spec_answer txt q a =
     (\<exists>idx. occurs (pattern_of q) txt idx \<and> (\<forall>k<idx. \<not> occurs (pattern_of q) txt k) \<and>
        (let start = idx + length (pattern_of q) in
           (\<exists>e\<ge>start. occurs delimiter txt e \<and>
                 (\<forall>k. start \<le> k \<and> k < e \<longrightarrow> \<not> occurs delimiter txt k) \<and>
                 a = take (e - start) (drop start txt))
         \<or> ((\<forall>k\<ge>start. \<not> occurs delimiter txt k) \<and>
              (\<exists>l\<ge>start. l < length txt \<and> txt ! l = dquote \<and>
                 (\<forall>k. l < k \<and> k < length txt \<longrightarrow> txt ! k \<noteq> dquote) \<and>
                 a = take (l - start) (drop start txt)))
         \<or> ((\<forall>k\<ge>start. \<not> occurs delimiter txt k) \<and>
              (\<forall>l. start \<le> l \<and> l < length txt \<longrightarrow> txt ! l \<noteq> dquote) \<and>
              a = drop start txt)))"

text \<open>A question object with the text \<open>t\<close>, and the two fallback texts of the specification.\<close>

definition question_obj :: "string \<Rightarrow> jsval" where
  "question_obj t = JObj [(''question'', JStr t)]"

definition color_size_text :: string where
  "color_size_text =
     quoted ''Color?'' @ ''='' @ quoted ''blue'' @ '', '' @ quoted ''Size?'' @ ''='' @ quoted ''large''"

definition color_text :: string where
  "color_text = quoted ''Color?'' @ ''='' @ quoted ''blue and green''"

text \<open>What the loop body of \<open>parseAnswersFromContent\<close> extracts for the key \<open>key\<close>.\<close>

definition extracted :: "string \<Rightarrow> string \<Rightarrow> string option" where
  "extracted txt key =
     (case indexOf txt (pattern_of key) 0 of
        None \<Rightarrow> None
      | Some idx \<Rightarrow>
          Some (substring txt (idx + length (pattern_of key))
                  (answer_end txt (idx + length (pattern_of key)))))"

text \<open>
  The same rule as a computation with the string functions of the program: the end of
  the answer that starts at \<open>start\<close>, and the answer that the rule gives for the question
  text \<open>key\<close> (\<open>None\<close> when \<open>"key"="\<close> does not occur in the text).
\<close>

definition rule_end :: "string \<Rightarrow> nat \<Rightarrow> nat" where
  "rule_end txt start =
     (case indexOf txt delimiter start of
        Some e \<Rightarrow> e
      | None \<Rightarrow>
          (case lastIndexOf txt dquote of
             None \<Rightarrow> length txt
           | Some l \<Rightarrow> if start \<le> l then l else length txt))"

definition rule_answer :: "string \<Rightarrow> string \<Rightarrow> string option" where
  "rule_answer txt key =
     (case indexOf txt (pattern_of key) 0 of
        None \<Rightarrow> None
      | Some idx \<Rightarrow>
          Some (substring txt (idx + length (pattern_of key))
                  (rule_end txt (idx + length (pattern_of key)))))"

text \<open>
  The answer to \<open>key\<close> is empty and is the last one of the text: no delimiter follows it,
  and the quotation mark that closes it is the last one of the string, so that the last
  quotation mark stands at the first position of the answer.  Two texts of this kind: the
  bare \<open>"Q"=""\<close>, and the sentence \<open>User has answered your questions: "Q"="".\<close>
\<close>

definition empty_last :: "string \<Rightarrow> string \<Rightarrow> bool" where
  "empty_last txt key =
     (case indexOf txt (pattern_of key) 0 of
        None \<Rightarrow> False
      | Some idx \<Rightarrow>
          indexOf txt delimiter (idx + length (pattern_of key)) = None \<and>
          lastIndexOf txt dquote = Some (idx + length (pattern_of key)))"

definition empty_answer_text :: string where
  "empty_answer_text = quoted ''Q'' @ ''='' @ quoted []"

definition empty_answer_sentence :: string where
  "empty_answer_sentence =
     ''User has answered your questions: '' @ quoted ''Q'' @ ''='' @ quoted [] @ ''.''"

text \<open>
  The Correlator's view of the log.  A request block is a \<open>tool_use\<close> block named
  \<open>AskUserQuestion\<close>; a response block is a \<open>tool_result\<close> block.  \<open>blocks_of role entry\<close>
  are the content blocks of \<open>entry\<close> when it is authored by \<open>role\<close> and its content is an
  array.  \<open>role_blocks role P i entries\<close> lists, in the order of the log, the blocks of the
  records authored by \<open>role\<close> that satisfy \<open>P\<close>, each with the position of its record (the
  first record of \<open>entries\<close> has position \<open>i\<close>) and the record itself.
\<close>

definition is_request :: "jsval \<Rightarrow> bool" where
  "is_request block =
     (field block ''type'' = JStr ''tool_use'' \<and> field block ''name'' = JStr ''AskUserQuestion'')"

definition is_response :: "jsval \<Rightarrow> bool" where
  "is_response block = (field block ''type'' = JStr ''tool_result'')"

definition blocks_of :: "string \<Rightarrow> jsval \<Rightarrow> jsval list" where
  "blocks_of role entry =
     (if field entry ''type'' = JStr role
      then (case field (field entry ''message'') ''content'' of JArr bs \<Rightarrow> bs | _ \<Rightarrow> [])
      else [])"

fun role_blocks ::
  "string \<Rightarrow> (jsval \<Rightarrow> bool) \<Rightarrow> nat \<Rightarrow> jsval list \<Rightarrow> (nat \<times> jsval \<times> jsval) list" where
  "role_blocks role P i [] = []"
| "role_blocks role P i (e # es) =
     map (\<lambda>b. (i, e, b)) (filter P (blocks_of role e)) @ role_blocks role P (Suc i) es"

text \<open>
  The request blocks registered under the id \<open>k\<close>, and the response blocks that carry the
  id \<open>k\<close> and are not flagged as an error.
\<close>

definition requests_for :: "jsval \<Rightarrow> jsval list \<Rightarrow> (nat \<times> jsval \<times> jsval) list" where
  "requests_for k parsedLines =
     role_blocks ''assistant'' (\<lambda>b. is_request b \<and> field b ''id'' = k) 0 parsedLines"

definition responses_for :: "jsval \<Rightarrow> jsval list \<Rightarrow> (nat \<times> jsval \<times> jsval) list" where
  "responses_for k parsedLines =
     role_blocks ''user''
       (\<lambda>b. is_response b \<and> field b ''tool_use_id'' = k \<and> \<not> truthy (field b ''is_error''))
       0 parsedLines"

text \<open>What pass 1 stores for the request block \<open>block\<close> of the record \<open>entry\<close> at position \<open>i\<close>.\<close>

definition ask_of :: "nat \<Rightarrow> jsval \<Rightarrow> jsval \<Rightarrow> ask_data" where
  "ask_of i entry block =
     \<lparr> ask_questions = or_empty (field (field block ''input'') ''questions''),
       ask_lineIndex = i,
       ask_timestamp = field entry ''timestamp'',
       ask_toolUseId = field block ''id'' \<rparr>"

text \<open>
  The response blocks that pass 2 turns into a pair, given the map of pass 1, and the
  pair it builds from one of them.
\<close>

definition hit :: "tool_use_map \<Rightarrow> jsval \<Rightarrow> bool" where
  "hit toolUseMap b =
     (is_response b \<and> toolUseMap (field b ''tool_use_id'') \<noteq> None \<and> \<not> truthy (field b ''is_error''))"

definition pair_of :: "tool_use_map \<Rightarrow> nat \<times> jsval \<times> jsval \<Rightarrow> qa_pair" where
  "pair_of toolUseMap = (\<lambda>(j, e, b).
     let askData = the (toolUseMap (field b ''tool_use_id''))
     in make_pair j e askData (the (resolve_answers e b askData)))"

text \<open>
  Records on which the Correlator cannot throw: the record and its content blocks are
  not \<open>null\<close>, and the question list of a request block is absent, a string, or an array
  of values that are not \<open>null\<close> and whose question text converts to a string.
\<close>

definition wf_questions :: "jsval \<Rightarrow> bool" where
  "wf_questions v =
     (case v of
        JArr qs \<Rightarrow> list_all (\<lambda>q. \<not> nullish q \<and> to_string (field q ''question'') \<noteq> None) qs
      | JStr s \<Rightarrow> True
      | _ \<Rightarrow> False)"

definition wf_record :: "jsval \<Rightarrow> bool" where
  "wf_record e =
     (\<not> nullish e
      \<and> (\<forall>b\<in>set (blocks_of ''assistant'' e).
            \<not> nullish b \<and>
            (is_request b \<longrightarrow> wf_questions (or_empty (field (field b ''input'') ''questions''))))
      \<and> (\<forall>b\<in>set (blocks_of ''user'' e). \<not> nullish b))"

text \<open>Logs used as examples.\<close>

definition tool_use_block :: "string \<Rightarrow> string \<Rightarrow> jsval \<Rightarrow> jsval" where
  "tool_use_block k nm input =
     JObj [(''type'', JStr ''tool_use''), (''id'', JStr k), (''name'', JStr nm), (''input'', input)]"

definition ask_block :: "string \<Rightarrow> string \<Rightarrow> jsval" where
  "ask_block k q =
     tool_use_block k ''AskUserQuestion'' (JObj [(''questions'', JArr [question_obj q])])"

definition result_block :: "string \<Rightarrow> string \<Rightarrow> jsval" where
  "result_block k txt =
     JObj [(''type'', JStr ''tool_result''), (''tool_use_id'', JStr k), (''content'', JStr txt)]"

definition record_of :: "string \<Rightarrow> jsval \<Rightarrow> (string \<times> jsval) list \<Rightarrow> jsval" where
  "record_of role content extra =
     JObj ([(''type'', JStr role),
            (''message'', JObj [(''role'', JStr role), (''content'', content)])] @ extra)"

definition structured_answers :: "string \<Rightarrow> string \<Rightarrow> string \<times> jsval" where
  "structured_answers q a = (''toolUseResult'', JObj [(''answers'', JObj [(q, JStr a)])])"

text \<open>Two questions, answered in the opposite order.\<close>

definition out_of_order_log :: "jsval list" where
  "out_of_order_log =
     [record_of ''assistant'' (JArr [ask_block ''X'' ''Color?'']) [(''timestamp'', JStr ''t0'')],
      record_of ''assistant'' (JArr [ask_block ''Y'' ''Size?'']) [(''timestamp'', JStr ''t1'')],
      record_of ''user'' (JArr [result_block ''Y'' (quoted ''Size?'' @ ''='' @ quoted ''large'')])
        [(''timestamp'', JStr ''t2'')],
      record_of ''user'' (JArr [result_block ''X'' ''ok''])
        [(''timestamp'', JStr ''t3''), structured_answers ''Color?'' ''blue'']]"

text \<open>A question and its answer in records that carry no timestamp.\<close>

definition no_timestamp_log :: "jsval list" where
  "no_timestamp_log =
     [record_of ''assistant'' (JArr [ask_block ''X'' ''Proceed?'']) [],
      record_of ''user'' (JArr [result_block ''X'' ''ok'']) [structured_answers ''Proceed?'' ''Yes'']]"

text \<open>A response whose id no request registered, and the same record without it.\<close>

definition orphan_record :: jsval where
  "orphan_record =
     record_of ''user'' (JArr [result_block ''Z'' ''done'']) [(''timestamp'', JStr ''t1'')]"

text \<open>A response to the question \<open>X\<close> that is flagged as an error.\<close>

definition error_block :: jsval where
  "error_block =
     JObj [(''type'', JStr ''tool_result''), (''tool_use_id'', JStr ''X''),
           (''content'', JStr ''failed''), (''is_error'', JBool True)]"

definition error_record :: jsval where
  "error_record = record_of ''user'' (JArr [error_block]) [(''timestamp'', JStr ''t1'')]"

definition empty_record :: jsval where
  "empty_record = record_of ''user'' (JArr []) [(''timestamp'', JStr ''t1'')]"

definition asking_record :: jsval where
  "asking_record =
     record_of ''assistant'' (JArr [ask_block ''X'' ''Proceed?'']) [(''timestamp'', JStr ''t0'')]"

text \<open>
  The argument summary of a tool call in the words of the specification: an ordered list
  of argument fields, tried in priority order, each with its own way of turning the
  value into the summary; the first field with a truthy value wins.
\<close>

definition priority_fields :: "string list" where
  "priority_fields = [''command'', ''file_path'', ''pattern'', ''query'', ''url'', ''content'']"

definition truncated_fields :: "string list" where
  "truncated_fields = [''command'', ''query'', ''content'']"

definition summary_of :: "string \<Rightarrow> jsval \<Rightarrow> jsval option" where
  "summary_of f v =
     (if f \<in> set truncated_fields then slice120 v
      else if f = ''pattern'' then map_option (\<lambda>p. JStr (''pattern: '' @ p)) (to_string v)
      else Some v)"

text \<open>
  A stand-in for \<open>JSON.stringify\<close> in the examples; it is right on the empty object, the
  only value the examples serialize.
\<close>

definition sample_stringify :: "jsval \<Rightarrow> string" where
  "sample_stringify v = ''{}''"

definition text_block :: "string \<Rightarrow> jsval" where
  "text_block s = JObj [(''type'', JStr ''text''), (''text'', JStr s)]"

text \<open>
  A user record with the result of a shell command: the record carries the side channel
  \<open>toolUseResult\<close>, and no question was asked.
\<close>

definition generic_result_log :: "jsval list" where
  "generic_result_log =
     [record_of ''user'' (JArr [result_block ''bash_1'' ''ok''])
        [(''timestamp'', JStr ''t0''), (''toolUseResult'', JObj [(''stdout'', JStr ''ok'')])]]"

text \<open>A call of a file tool with a path of 121 characters.\<close>

definition long_path_block :: jsval where
  "long_path_block =
     tool_use_block ''r1'' ''Read'' (JObj [(''file_path'', JStr (replicate 121 (CHR ''a'')))])"

text \<open>An assistant record whose text starts with one of the boilerplate words.\<close>

definition today_log :: "jsval list" where
  "today_log =
     [record_of ''assistant'' (JArr [text_block ''Today is fine'']) [(''timestamp'', JStr ''t0'')]]"

text \<open>A shell call that names a command and a file path.\<close>

definition shell_block :: jsval where
  "shell_block =
     tool_use_block ''b1'' ''Bash'' (JObj [(''command'', JStr ''ls''), (''file_path'', JStr ''/x'')])"

text \<open>
  The entries of a timeline by kind, and what each record of the log contributes to
  them.  The Timeline Builder looks at a record only if it has a
  message and a timestamp; the content blocks of a record without a message are no
  blocks of it (\<open>blocks_of\<close> is empty), so the definitions below test the timestamp only.

  A tool call is a \<open>tool_use\<close> block that is not a structured question.  Each tool call
  of an assistant record yields a \<open>tool_use\<close> entry with the summary of its arguments;
  \<open>None\<close> stands for a summary that throws.
\<close>

fun is_tool_call :: "timeline_entry \<Rightarrow> bool" where
  "is_tool_call (tool_use ts n c i) = True"
| "is_tool_call _ = False"

fun is_assistant_text :: "timeline_entry \<Rightarrow> bool" where
  "is_assistant_text (assistant_text ts c i) = True"
| "is_assistant_text _ = False"

fun is_user_text :: "timeline_entry \<Rightarrow> bool" where
  "is_user_text (user_text ts c i) = True"
| "is_user_text _ = False"

definition tool_call_block :: "jsval \<Rightarrow> bool" where
  "tool_call_block b =
     (field b ''type'' = JStr ''tool_use'' \<and> field b ''name'' \<noteq> JStr ''AskUserQuestion'')"

definition tool_calls_of :: "(jsval \<Rightarrow> string) \<Rightarrow> nat \<Rightarrow> jsval \<Rightarrow> timeline_entry option list" where
  "tool_calls_of stringify i entry =
     (if truthy (field entry ''timestamp'')
      then map (\<lambda>b. map_option
                      (\<lambda>snippet. tool_use (field entry ''timestamp'') (field b ''name'') snippet i)
                      (summarizeToolInput stringify b))
             (filter tool_call_block (blocks_of ''assistant'' entry))
      else [])"

text \<open>
  The cleaned text of a text block: tags removed, white space trimmed; empty when the
  block has no text.  A text block of an assistant record yields an \<open>assistant_text\<close>
  entry unless its cleaned text is shorter than three code units.  A text block of a
  user record yields a \<open>user_text\<close> entry unless its cleaned text is shorter than three
  code units or starts with a boilerplate word; the content of a user record that is a
  plain string yields one unless its cleaned text is shorter than three code units.
\<close>

definition cleaned_text :: "jsval \<Rightarrow> string" where
  "cleaned_text b = (case field b ''text'' of JStr s \<Rightarrow> trim (remove_tags s) | _ \<Rightarrow> [])"

definition assistant_texts_of :: "nat \<Rightarrow> jsval \<Rightarrow> timeline_entry list" where
  "assistant_texts_of i entry =
     (if truthy (field entry ''timestamp'')
      then map (\<lambda>b. assistant_text (field entry ''timestamp'') (cleaned_text b) i)
             (filter (\<lambda>b. field b ''type'' = JStr ''text'' \<and> 3 \<le> length (cleaned_text b))
                (blocks_of ''assistant'' entry))
      else [])"

definition user_texts_of :: "nat \<Rightarrow> jsval \<Rightarrow> timeline_entry list" where
  "user_texts_of i entry =
     (if truthy (field entry ''timestamp'') \<and> field entry ''type'' = JStr ''user''
      then (case field (field entry ''message'') ''content'' of
              JStr s \<Rightarrow>
                if 3 \<le> length (trim (remove_tags s))
                then [user_text (field entry ''timestamp'') (trim (remove_tags s)) i] else []
            | JArr bs \<Rightarrow>
                map (\<lambda>b. user_text (field entry ''timestamp'') (cleaned_text b) i)
                  (filter (\<lambda>b. field b ''type'' = JStr ''text'' \<and> 3 \<le> length (cleaned_text b)
                                \<and> \<not> is_boilerplate (cleaned_text b)) bs)
            | _ \<Rightarrow> [])
      else [])"

text \<open>
  Two logs for the examples.  In the first, an assistant record with a text, a shell call
  and a question, a user record that holds a copy of the shell call, and an assistant
  record with the shell call but without a timestamp.  In the second, a user record with
  three text blocks, an assistant record with two, and a user record whose content is a
  plain string.
\<close>

definition tool_log :: "jsval list" where
  "tool_log =
     [record_of ''assistant''
        (JArr [text_block ''Let me look'', shell_block, ask_block ''X'' ''Proceed?''])
        [(''timestamp'', JStr ''t0'')],
      record_of ''user'' (JArr [shell_block]) [(''timestamp'', JStr ''t1'')],
      record_of ''assistant'' (JArr [shell_block]) []]"

definition narrative_log :: "jsval list" where
  "narrative_log =
     [record_of ''user''
        (JArr [text_block ''<b>Today is fine</b> '', text_block ''Hello there'', text_block ''ok''])
        [(''timestamp'', JStr ''t0'')],
      record_of ''assistant'' (JArr [text_block ''<b>Today is fine</b> '', text_block ''ok''])
        [(''timestamp'', JStr ''t1'')],
      record_of ''user'' (JStr ''Today is fine'') [(''timestamp'', JStr ''t2'')]]"










section \<open>String search\<close>

lemma find_from_Some_iff:
  "find_from pat s i = Some j \<longleftrightarrow>
     (\<exists>d. j = i + d \<and> d \<le> length s \<and> prefix pat (drop d s) \<and> (\<forall>k<d. \<not> prefix pat (drop k s)))"
proof (induction s arbitrary: i)
  case Nil
  then show ?case by auto
next
  case (Cons c cs)
  show ?case
  proof (cases "prefix pat (c # cs)")
    case True
    then show ?thesis
      by (auto intro!: exI[of _ 0]) (metis drop0 not_gr_zero)
  next
    case False
    have "find_from pat (c # cs) i = Some j \<longleftrightarrow> find_from pat cs (Suc i) = Some j"
      using False by simp
    also have "\<dots> \<longleftrightarrow> (\<exists>d. j = Suc i + d \<and> d \<le> length cs \<and> prefix pat (drop d cs) \<and> (\<forall>k<d. \<not> prefix pat (drop k cs)))"
      by (rule Cons.IH)
    also have "\<dots> \<longleftrightarrow> (\<exists>d. j = i + d \<and> d \<le> length (c # cs) \<and> prefix pat (drop d (c # cs)) \<and> (\<forall>k<d. \<not> prefix pat (drop k (c # cs))))"
      (is "?L \<longleftrightarrow> ?R")
    proof
      assume ?L
      then obtain d where d: "j = Suc i + d" "d \<le> length cs" "prefix pat (drop d cs)"
        "\<forall>k<d. \<not> prefix pat (drop k cs)" by blast
      have "\<forall>k<Suc d. \<not> prefix pat (drop k (c # cs))"
      proof (intro allI impI)
        fix k assume "k < Suc d"
        then show "\<not> prefix pat (drop k (c # cs))"
          using False d(4) by (cases k) auto
      qed
      with d show ?R by (intro exI[of _ "Suc d"]) auto
    next
      assume ?R
      then obtain d where d: "j = i + d" "d \<le> length (c # cs)" "prefix pat (drop d (c # cs))"
        "\<forall>k<d. \<not> prefix pat (drop k (c # cs))" by blast
      from False d(3) obtain d' where d': "d = Suc d'" by (cases d) auto
      have "\<forall>k<d'. \<not> prefix pat (drop k cs)"
      proof (intro allI impI)
        fix k assume "k < d'"
        then have "Suc k < d" using d' by simp
        with d(4) have "\<not> prefix pat (drop (Suc k) (c # cs))" by blast
        then show "\<not> prefix pat (drop k cs)" by simp
      qed
      with d d' show ?L by (intro exI[of _ d']) auto
    qed
    finally show ?thesis .
  qed
qed

lemma indexOf_Some_iff:
  "indexOf s pat from = Some j \<longleftrightarrow>
     (min from (length s) \<le> j \<and> occurs pat s j \<and>
      (\<forall>k. min from (length s) \<le> k \<and> k < j \<longrightarrow> \<not> occurs pat s k))"
proof -
  define f where "f = min from (length s)"
  have fl: "f \<le> length s" by (simp add: f_def)
  have "indexOf s pat from = Some j \<longleftrightarrow>
      (\<exists>d. j = f + d \<and> d \<le> length (drop f s) \<and> prefix pat (drop d (drop f s)) \<and>
           (\<forall>k<d. \<not> prefix pat (drop k (drop f s))))"
    by (simp add: indexOf_def Let_def f_def find_from_Some_iff)
  also have "\<dots> \<longleftrightarrow> (f \<le> j \<and> occurs pat s j \<and> (\<forall>k. f \<le> k \<and> k < j \<longrightarrow> \<not> occurs pat s k))"
    (is "?A \<longleftrightarrow> ?B")
  proof
    assume ?A
    then obtain d where d: "j = f + d" "d \<le> length s - f" "prefix pat (drop (f + d) s)"
      "\<forall>k<d. \<not> prefix pat (drop (f + k) s)" by (auto simp: add.commute)
    have "\<forall>k. f \<le> k \<and> k < j \<longrightarrow> \<not> occurs pat s k"
    proof (intro allI impI)
      fix k assume k: "f \<le> k \<and> k < j"
      then have "k - f < d" using d(1) by arith
      with d(4) have "\<not> prefix pat (drop (f + (k - f)) s)" by blast
      with k show "\<not> occurs pat s k" by (simp add: occurs_def)
    qed
    with d fl show ?B by (auto simp: occurs_def)
  next
    assume B: ?B
    then have j: "f \<le> j" "j \<le> length s" "prefix pat (drop j s)" by (auto simp: occurs_def)
    have "\<forall>k<j - f. \<not> prefix pat (drop k (drop f s))"
    proof (intro allI impI)
      fix k assume "k < j - f"
      then have "f \<le> f + k \<and> f + k < j" by arith
      with B have "\<not> occurs pat s (f + k)" by blast
      moreover have "f + k \<le> length s" using \<open>k < j - f\<close> j by arith
      ultimately show "\<not> prefix pat (drop k (drop f s))" by (simp add: occurs_def add.commute)
    qed
    with j show ?A by (intro exI[of _ "j - f"]) (auto simp: add.commute)
  qed
  finally show ?thesis by (simp add: f_def)
qed

lemma indexOf_None_iff:
  "indexOf s pat from = None \<longleftrightarrow> (\<forall>k. min from (length s) \<le> k \<longrightarrow> \<not> occurs pat s k)"
proof
  assume N: "indexOf s pat from = None"
  show "\<forall>k. min from (length s) \<le> k \<longrightarrow> \<not> occurs pat s k"
  proof (intro allI impI notI)
    fix k assume k: "min from (length s) \<le> k" "occurs pat s k"
    define P where "P = (\<lambda>k. min from (length s) \<le> k \<and> occurs pat s k)"
    have "P k" using k by (simp add: P_def)
    then have L: "P (LEAST k. P k)" by (rule LeastI)
    have M: "\<And>m. m < (LEAST k. P k) \<Longrightarrow> \<not> P m" by (rule not_less_Least)
    have "min from (length s) \<le> (LEAST k. P k) \<and> occurs pat s (LEAST k. P k) \<and>
      (\<forall>k. min from (length s) \<le> k \<and> k < (LEAST k. P k) \<longrightarrow> \<not> occurs pat s k)"
    proof (intro conjI allI impI)
      show "min from (length s) \<le> (LEAST k. P k)" using L unfolding P_def by blast
      show "occurs pat s (LEAST k. P k)" using L unfolding P_def by blast
      fix m assume m: "min from (length s) \<le> m \<and> m < (LEAST k. P k)"
      then have "\<not> P m" using M by blast
      with m show "\<not> occurs pat s m" unfolding P_def by blast
    qed
    then have "indexOf s pat from = Some (LEAST k. P k)"
      by (rule iffD2[OF indexOf_Some_iff])
    with N show False by simp
  qed
next
  assume A: "\<forall>k. min from (length s) \<le> k \<longrightarrow> \<not> occurs pat s k"
  show "indexOf s pat from = None"
  proof (cases "indexOf s pat from")
    case None then show ?thesis .
  next
    case (Some j)
    then have "min from (length s) \<le> j \<and> occurs pat s j"
      using iffD1[OF indexOf_Some_iff] by blast
    with A show ?thesis by blast
  qed
qed

lemma last_from_None: "c \<notin> set s \<Longrightarrow> last_from c s i = None"
  by (induction s arbitrary: i) auto

lemma last_from_None_D: "last_from c s i = None \<Longrightarrow> c \<notin> set s"
  by (induction s arbitrary: i) (auto split: option.splits if_splits)

lemma last_from_Some:
  "last_from c s i = Some j \<Longrightarrow>
     \<exists>d. j = i + d \<and> d < length s \<and> s ! d = c \<and> (\<forall>k. d < k \<and> k < length s \<longrightarrow> s ! k \<noteq> c)"
proof (induction s arbitrary: i j)
  case Nil
  then show ?case by simp
next
  case (Cons a s)
  show ?case
  proof (cases "last_from c s (Suc i)")
    case (Some j')
    with Cons.prems have jj: "j = j'" by simp
    from Cons.IH[OF Some] obtain d where d: "j' = Suc i + d" "d < length s" "s ! d = c"
      "\<forall>k. d < k \<and> k < length s \<longrightarrow> s ! k \<noteq> c" by blast
    have "\<forall>k. Suc d < k \<and> k < length (a # s) \<longrightarrow> (a # s) ! k \<noteq> c"
    proof (intro allI impI)
      fix k assume k: "Suc d < k \<and> k < length (a # s)"
      then obtain k' where "k = Suc k'" by (cases k) auto
      with k d(4) show "(a # s) ! k \<noteq> c" by auto
    qed
    with d jj show ?thesis by (intro exI[of _ "Suc d"]) auto
  next
    case None
    then have nn: "c \<notin> set s" by (rule last_from_None_D)
    from None Cons.prems have ac: "a = c" "j = i" by (auto split: if_splits)
    have "\<forall>k. 0 < k \<and> k < length (a # s) \<longrightarrow> (a # s) ! k \<noteq> c"
    proof (intro allI impI)
      fix k assume k: "0 < k \<and> k < length (a # s)"
      then obtain k' where "k = Suc k'" by (cases k) auto
      with k nn show "(a # s) ! k \<noteq> c" by (auto simp: in_set_conv_nth)
    qed
    with ac show ?thesis by (intro exI[of _ 0]) auto
  qed
qed

lemma lastIndexOf_Some:
  "lastIndexOf s c = Some j \<Longrightarrow>
     j < length s \<and> s ! j = c \<and> (\<forall>k. j < k \<and> k < length s \<longrightarrow> s ! k \<noteq> c)"
  unfolding lastIndexOf_def by (drule last_from_Some) auto

lemma lastIndexOf_None: "lastIndexOf s c = None \<Longrightarrow> c \<notin> set s"
  unfolding lastIndexOf_def by (rule last_from_None_D)

lemma lastIndexOf_last:
  assumes "l < length s" "s ! l = c" "\<forall>k. l < k \<and> k < length s \<longrightarrow> s ! k \<noteq> c"
  shows "lastIndexOf s c = Some l"
proof (cases "lastIndexOf s c")
  case None
  then have "c \<notin> set s" by (rule lastIndexOf_None)
  with assms(1,2) show ?thesis by (auto simp: in_set_conv_nth)
next
  case (Some j)
  from lastIndexOf_Some[OF Some] have j: "j < length s" "s ! j = c"
    "\<forall>k. j < k \<and> k < length s \<longrightarrow> s ! k \<noteq> c" by auto
  have "j = l"
  proof (rule ccontr)
    assume "j \<noteq> l"
    then consider "j < l" | "l < j" by arith
    then show False
    proof cases
      case 1 with j(3) assms(1,2) show False by blast
    next
      case 2 with assms(3) j(1,2) show False by blast
    qed
  qed
  with Some show ?thesis by simp
qed

section \<open>The fallback answer parser: properties\<close>

lemma substring_take_drop: "a \<le> b \<Longrightarrow> b \<le> length s \<Longrightarrow> substring s a b = take (b - a) (drop a s)"
  by (simp add: substring_def Let_def min_def max_def)

lemma occurs_bound: "occurs pat s k \<Longrightarrow> k + length pat \<le> length s"
  by (auto simp: occurs_def dest!: prefix_length_le)

lemma rule_end_spec:
  assumes st: "start \<le> length txt"
  shows "a = substring txt start (rule_end txt start) \<longleftrightarrow>
           (\<exists>e\<ge>start. occurs delimiter txt e \<and>
                 (\<forall>k. start \<le> k \<and> k < e \<longrightarrow> \<not> occurs delimiter txt k) \<and>
                 a = take (e - start) (drop start txt))
         \<or> ((\<forall>k\<ge>start. \<not> occurs delimiter txt k) \<and>
              (\<exists>l\<ge>start. l < length txt \<and> txt ! l = dquote \<and>
                 (\<forall>k. l < k \<and> k < length txt \<longrightarrow> txt ! k \<noteq> dquote) \<and>
                 a = take (l - start) (drop start txt)))
         \<or> ((\<forall>k\<ge>start. \<not> occurs delimiter txt k) \<and>
              (\<forall>l. start \<le> l \<and> l < length txt \<longrightarrow> txt ! l \<noteq> dquote) \<and>
              a = drop start txt)"
  (is "?L \<longleftrightarrow> ?D1 \<or> ?D2 \<or> ?D3")
proof -
  have m: "min start (length txt) = start" using st by simp
  show ?thesis
  proof (cases "indexOf txt delimiter start")
    case (Some e)
    from iffD1[OF indexOf_Some_iff Some] have e: "start \<le> e" "occurs delimiter txt e"
      "\<forall>k. start \<le> k \<and> k < e \<longrightarrow> \<not> occurs delimiter txt k" by (auto simp: m)
    have el: "e \<le> length txt" using e(2) by (simp add: occurs_def)
    have ae: "rule_end txt start = e" using Some by (simp add: rule_end_def)
    have nD: "\<not> (\<forall>k\<ge>start. \<not> occurs delimiter txt k)" using e by blast
    have uniq: "\<And>e'. start \<le> e' \<Longrightarrow> occurs delimiter txt e' \<Longrightarrow>
        (\<forall>k. start \<le> k \<and> k < e' \<longrightarrow> \<not> occurs delimiter txt k) \<Longrightarrow> e' = e"
      using e by (metis linorder_neqE_nat)
    have "?L \<longleftrightarrow> a = take (e - start) (drop start txt)"
      using ae substring_take_drop[OF e(1) el] by simp
    also have "\<dots> \<longleftrightarrow> ?D1" using e uniq by blast
    finally show ?thesis using nD by blast
  next
    case None
    then have nd: "\<forall>k\<ge>start. \<not> occurs delimiter txt k"
      using iffD1[OF indexOf_None_iff None] by (simp add: m)
    then have nD1: "\<not> ?D1" by blast
    show ?thesis
    proof (cases "lastIndexOf txt dquote")
      case N2: None
      then have "dquote \<notin> set txt" by (rule lastIndexOf_None)
      then have nq: "\<forall>l<length txt. txt ! l \<noteq> dquote" by (auto simp: in_set_conv_nth)
      have ae: "rule_end txt start = length txt" using None N2 by (simp add: rule_end_def)
      have "?L \<longleftrightarrow> a = drop start txt" using ae substring_take_drop[OF st le_refl] by simp
      moreover have "\<not> ?D2" using nq by blast
      ultimately show ?thesis using nD1 nd nq by blast
    next
      case (Some l)
      from lastIndexOf_Some[OF Some] have l: "l < length txt" "txt ! l = dquote"
        "\<forall>k. l < k \<and> k < length txt \<longrightarrow> txt ! k \<noteq> dquote" by auto
      show ?thesis
      proof (cases "start \<le> l")
        case False
        have ae: "rule_end txt start = length txt" using None Some False by (simp add: rule_end_def)
        have "?L \<longleftrightarrow> a = drop start txt" using ae substring_take_drop[OF st le_refl] by simp
        moreover have nq: "\<forall>k. start \<le> k \<and> k < length txt \<longrightarrow> txt ! k \<noteq> dquote"
          using l(3) False by auto
        moreover have "\<not> ?D2" using nq by blast
        ultimately show ?thesis using nD1 nd by blast
      next
        case True
        have ae: "rule_end txt start = l" using None Some True by (simp add: rule_end_def)
        have "?L \<longleftrightarrow> a = take (l - start) (drop start txt)"
          using ae substring_take_drop[of start l "txt"] True l(1) by simp
        moreover have "\<not> ?D3" using True l by blast
        moreover have "\<And>l'. l' < length txt \<Longrightarrow> txt ! l' = dquote \<Longrightarrow>
            (\<forall>k. l' < k \<and> k < length txt \<longrightarrow> txt ! k \<noteq> dquote) \<Longrightarrow> l' = l"
          using l by (metis linorder_neqE_nat)
        ultimately show ?thesis using nD1 nd True l by blast
      qed
    qed
  qed
qed

lemma spec_answer_computed: "spec_answer txt q a \<longleftrightarrow> rule_answer txt q = Some a"
proof
  assume E: "rule_answer txt q = Some a"
  then obtain idx where idx: "indexOf txt (pattern_of q) 0 = Some idx"
    and a: "a = substring txt (idx + length (pattern_of q)) (rule_end txt (idx + length (pattern_of q)))"
    by (auto simp: rule_answer_def split: option.splits)
  from iffD1[OF indexOf_Some_iff idx] have o: "occurs (pattern_of q) txt idx"
    "\<forall>k<idx. \<not> occurs (pattern_of q) txt k" by auto
  have st: "idx + length (pattern_of q) \<le> length txt" using o(1) by (rule occurs_bound)
  from iffD1[OF rule_end_spec[OF st] a] o show "spec_answer txt q a"
    unfolding spec_answer_def Let_def by blast
next
  assume "spec_answer txt q a"
  then obtain idx where o: "occurs (pattern_of q) txt idx" "\<forall>k<idx. \<not> occurs (pattern_of q) txt k"
    and D: "(\<exists>e\<ge>idx + length (pattern_of q). occurs delimiter txt e \<and>
                 (\<forall>k. idx + length (pattern_of q) \<le> k \<and> k < e \<longrightarrow> \<not> occurs delimiter txt k) \<and>
                 a = take (e - (idx + length (pattern_of q))) (drop (idx + length (pattern_of q)) txt))
         \<or> ((\<forall>k\<ge>idx + length (pattern_of q). \<not> occurs delimiter txt k) \<and>
              (\<exists>l\<ge>idx + length (pattern_of q). l < length txt \<and> txt ! l = dquote \<and>
                 (\<forall>k. l < k \<and> k < length txt \<longrightarrow> txt ! k \<noteq> dquote) \<and>
                 a = take (l - (idx + length (pattern_of q))) (drop (idx + length (pattern_of q)) txt)))
         \<or> ((\<forall>k\<ge>idx + length (pattern_of q). \<not> occurs delimiter txt k) \<and>
              (\<forall>l. idx + length (pattern_of q) \<le> l \<and> l < length txt \<longrightarrow> txt ! l \<noteq> dquote) \<and>
              a = drop (idx + length (pattern_of q)) txt)"
    unfolding spec_answer_def Let_def by blast
  have st: "idx + length (pattern_of q) \<le> length txt" using o(1) by (rule occurs_bound)
  have "min 0 (length txt) \<le> idx \<and> occurs (pattern_of q) txt idx \<and>
      (\<forall>k. min 0 (length txt) \<le> k \<and> k < idx \<longrightarrow> \<not> occurs (pattern_of q) txt k)"
    using o by simp
  then have idx: "indexOf txt (pattern_of q) 0 = Some idx" by (rule iffD2[OF indexOf_Some_iff])
  from iffD2[OF rule_end_spec[OF st] D]
  show "rule_answer txt q = Some a" using idx by (simp add: rule_answer_def)
qed

lemma extracted_follows_rule:
  assumes "\<not> empty_last txt q"
  shows "extracted txt q = rule_answer txt q"
  using assms
  by (auto simp: empty_last_def extracted_def rule_answer_def answer_end_def rule_end_def
           split: option.splits)

lemma extracted_empty_last:
  assumes "empty_last txt q"
  shows "\<exists>idx. indexOf txt (pattern_of q) 0 = Some idx
           \<and> rule_answer txt q = Some []
           \<and> extracted txt q = Some (drop (idx + length (pattern_of q)) txt)"
proof -
  from assms obtain idx where idx: "indexOf txt (pattern_of q) 0 = Some idx"
    and d: "indexOf txt delimiter (idx + length (pattern_of q)) = None"
    and l: "lastIndexOf txt dquote = Some (idx + length (pattern_of q))"
    by (auto simp: empty_last_def split: option.splits)
  from lastIndexOf_Some[OF l] have b: "idx + length (pattern_of q) < length txt" by simp
  have "rule_answer txt q = Some []"
    using idx d l by (simp add: rule_answer_def rule_end_def substring_def)
  moreover have "extracted txt q = Some (drop (idx + length (pattern_of q)) txt)"
    using idx d l b by (simp add: extracted_def answer_end_def substring_def min_def max_def)
  ultimately show ?thesis using idx by blast
qed

lemma parse_question_typed:
  assumes "\<not> nullish q" "field q ''question'' = JStr t"
  shows "parse_question txt q m =
           Some (case extracted txt t of None \<Rightarrow> m | Some a \<Rightarrow> assign_answer m t a)"
  using assms
  by (simp add: parse_question_def getp_def extracted_def Let_def split: option.splits)

lemma parse_questions_typed:
  assumes "\<forall>q\<in>set qs. \<not> nullish q \<and> (\<exists>t. field q ''question'' = JStr t)"
  shows "\<exists>m. parse_questions txt qs m0 = Some m \<and>
           (\<forall>t. m t = (if t \<noteq> ''__proto__'' \<and> (\<exists>q\<in>set qs. field q ''question'' = JStr t)
                           \<and> extracted txt t \<noteq> None
                        then extracted txt t else m0 t))"
  using assms
proof (induction qs arbitrary: m0)
  case Nil
  then show ?case by simp
next
  case (Cons q qs)
  then obtain t where q: "\<not> nullish q" "field q ''question'' = JStr t" by auto
  define m1 where "m1 = (case extracted txt t of None \<Rightarrow> m0 | Some a \<Rightarrow> assign_answer m0 t a)"
  have step: "parse_question txt q m0 = Some m1"
    unfolding m1_def by (rule parse_question_typed[OF q])
  from Cons.prems have "\<forall>q\<in>set qs. \<not> nullish q \<and> (\<exists>t. field q ''question'' = JStr t)" by simp
  from Cons.IH[OF this, of m1] obtain m where m: "parse_questions txt qs m1 = Some m"
    "\<forall>u. m u = (if u \<noteq> ''__proto__'' \<and> (\<exists>q\<in>set qs. field q ''question'' = JStr u)
                           \<and> extracted txt u \<noteq> None
                        then extracted txt u else m1 u)" by blast
  have m1: "\<And>u. m1 u = (if u \<noteq> ''__proto__'' \<and> u = t \<and> extracted txt u \<noteq> None
                        then extracted txt u else m0 u)"
    by (auto simp: m1_def assign_answer_def split: option.splits)
  have "parse_questions txt (q # qs) m0 = Some m" using step m(1) by simp
  moreover have "\<forall>u. m u = (if u \<noteq> ''__proto__'' \<and> (\<exists>q'\<in>set (q # qs). field q' ''question'' = JStr u)
                           \<and> extracted txt u \<noteq> None
                        then extracted txt u else m0 u)"
    using m(2) m1 q(2) by auto
  ultimately show ?case by blast
qed

lemma parse_question_dom:
  assumes "parse_question txt q m0 = Some m"
  shows "dom m \<subseteq> dom m0 \<union> {k. \<exists>v. getp q ''question'' = Some v \<and> to_string v = Some k}
         \<and> (finite (dom m0) \<longrightarrow> finite (dom m) \<and> card (dom m) \<le> Suc (card (dom m0)))"
proof -
  from assms obtain v k where vk: "getp q ''question'' = Some v" "to_string v = Some k"
    and m: "m = m0 \<or> (\<exists>a. m = m0(k \<mapsto> a))"
    by (auto simp: parse_question_def Let_def assign_answer_def
             split: option.splits Option.bind_splits if_splits)
  from m show ?thesis
  proof
    assume "m = m0" then show ?thesis by auto
  next
    assume "\<exists>a. m = m0(k \<mapsto> a)"
    then obtain a where "m = m0(k \<mapsto> a)" ..
    then have d: "dom m = insert k (dom m0)" by simp
    show ?thesis using vk d by (auto simp: card_insert_if)
  qed
qed

lemma parse_questions_dom:
  assumes "parse_questions txt qs m0 = Some m"
  shows "dom m \<subseteq> dom m0 \<union> {k. \<exists>q\<in>set qs. \<exists>v. getp q ''question'' = Some v \<and> to_string v = Some k}
         \<and> (finite (dom m0) \<longrightarrow> finite (dom m) \<and> card (dom m) \<le> card (dom m0) + length qs)"
  using assms
proof (induction qs arbitrary: m0)
  case Nil
  then show ?case by simp
next
  case (Cons q qs)
  then obtain m1 where s1: "parse_question txt q m0 = Some m1" and s2: "parse_questions txt qs m1 = Some m"
    by (auto split: Option.bind_splits)
  from parse_question_dom[OF s1]
  have A1: "dom m1 \<subseteq> dom m0 \<union> {k. \<exists>v. getp q ''question'' = Some v \<and> to_string v = Some k}"
    and A2: "finite (dom m0) \<longrightarrow> finite (dom m1) \<and> card (dom m1) \<le> Suc (card (dom m0))"
    by blast+
  from Cons.IH[OF s2]
  have B1: "dom m \<subseteq> dom m1 \<union> {k. \<exists>q\<in>set qs. \<exists>v. getp q ''question'' = Some v \<and> to_string v = Some k}"
    and B2: "finite (dom m1) \<longrightarrow> finite (dom m) \<and> card (dom m) \<le> card (dom m1) + length qs"
    by blast+
  have "dom m \<subseteq> dom m0 \<union> {k. \<exists>q\<in>set (q # qs). \<exists>v. getp q ''question'' = Some v \<and> to_string v = Some k}"
  proof
    fix k assume "k \<in> dom m"
    with B1 have "k \<in> dom m1 \<or> (\<exists>q\<in>set qs. \<exists>v. getp q ''question'' = Some v \<and> to_string v = Some k)"
      by blast
    with A1 have "k \<in> dom m0 \<or> (\<exists>v. getp q ''question'' = Some v \<and> to_string v = Some k)
        \<or> (\<exists>q\<in>set qs. \<exists>v. getp q ''question'' = Some v \<and> to_string v = Some k)" by blast
    then show "k \<in> dom m0 \<union> {k. \<exists>q\<in>set (q # qs). \<exists>v. getp q ''question'' = Some v \<and> to_string v = Some k}"
      by auto
  qed
  moreover have "finite (dom m0) \<longrightarrow> finite (dom m) \<and> card (dom m) \<le> card (dom m0) + length (q # qs)"
  proof
    assume f0: "finite (dom m0)"
    with A2 have f1: "finite (dom m1)" and c1: "card (dom m1) \<le> Suc (card (dom m0))" by blast+
    with B2 have "finite (dom m)" and "card (dom m) \<le> card (dom m1) + length qs" by blast+
    with c1 show "finite (dom m) \<and> card (dom m) \<le> card (dom m0) + length (q # qs)" by simp
  qed
  ultimately show ?case by blast
qed

lemma ev_color_size_1: "extracted color_size_text ''Color?'' = Some ''blue''" by code_simp
lemma ev_color_size_2: "extracted color_size_text ''Size?'' = Some ''large''" by code_simp
lemma ev_color: "extracted color_text ''Color?'' = Some ''blue and green''" by code_simp

lemma parse_color_size:
  "parseAnswersFromContent (JStr color_size_text) (JArr [question_obj ''Color?'', question_obj ''Size?''])
     = Some [''Color?'' \<mapsto> ''blue'', ''Size?'' \<mapsto> ''large'']"
  by (simp add: parseAnswersFromContent_def question_obj_def parse_question_typed
        ev_color_size_1 ev_color_size_2 assign_answer_def)

lemma parse_color:
  "parseAnswersFromContent (JStr color_text) (JArr [question_obj ''Color?''])
     = Some [''Color?'' \<mapsto> ''blue and green'']"
  by (simp add: parseAnswersFromContent_def question_obj_def parse_question_typed
        ev_color assign_answer_def)

lemma ev_empty: "extracted empty_answer_text ''Q'' = Some [dquote]" by code_simp

lemma ev_empty_sentence: "extracted empty_answer_sentence ''Q'' = Some (dquote # ''.'')" by code_simp

lemma parse_empty:
  "parseAnswersFromContent (JStr empty_answer_text) (JArr [question_obj ''Q''])
     = Some [''Q'' \<mapsto> [dquote]]"
  by (simp add: parseAnswersFromContent_def question_obj_def parse_question_typed ev_empty
        assign_answer_def)

lemma parse_empty_sentence:
  "parseAnswersFromContent (JStr empty_answer_sentence) (JArr [question_obj ''Q''])
     = Some [''Q'' \<mapsto> dquote # ''.'']"
  by (simp add: parseAnswersFromContent_def question_obj_def parse_question_typed
        ev_empty_sentence assign_answer_def)

lemma empty_answer_rule:
  "empty_last empty_answer_text ''Q''
   \<and> rule_answer empty_answer_text ''Q'' = Some []
   \<and> empty_last empty_answer_sentence ''Q''
   \<and> rule_answer empty_answer_sentence ''Q'' = Some []"
  by code_simp

lemma spec_answer_empty:
  "(spec_answer empty_answer_text ''Q'' a \<longleftrightarrow> a = [])
   \<and> (spec_answer empty_answer_sentence ''Q'' a \<longleftrightarrow> a = [])"
  using empty_answer_rule by (auto simp: spec_answer_computed)

lemma parse_proto:
  "parseAnswersFromContent (JStr (quoted ''__proto__'' @ ''='' @ quoted ''x''))
     (JArr [question_obj ''__proto__'']) = Some Map.empty"
  by (simp add: parseAnswersFromContent_def question_obj_def parse_question_typed assign_answer_def
      split: option.splits)

lemma parseAnswersFromContent_follows_rule:
  assumes A: "\<forall>q\<in>set qs. \<not> nullish q \<and> (\<exists>t. field q ''question'' = JStr t \<and> \<not> empty_last txt t)"
  shows "\<exists>m. parseAnswersFromContent (JStr txt) (JArr qs) = Some m \<and>
         (\<forall>t a. m t = Some a \<longleftrightarrow>
                  t \<noteq> ''__proto__'' \<and> (\<exists>q\<in>set qs. field q ''question'' = JStr t) \<and>
                  spec_answer txt t a)"
proof -
  from A have A': "\<forall>q\<in>set qs. \<not> nullish q \<and> (\<exists>t. field q ''question'' = JStr t)" by blast
  from parse_questions_typed[OF A', of "txt" Map.empty]
  obtain m where m: "parse_questions txt qs Map.empty = Some m"
    "\<forall>t. m t = (if t \<noteq> ''__proto__'' \<and> (\<exists>q\<in>set qs. field q ''question'' = JStr t)
                           \<and> extracted txt t \<noteq> None
                        then extracted txt t else Map.empty t)" by blast
  have "parseAnswersFromContent (JStr txt) (JArr qs) = Some m"
    using m(1) by (simp add: parseAnswersFromContent_def)
  moreover have "\<forall>t a. m t = Some a \<longleftrightarrow>
                  t \<noteq> ''__proto__'' \<and> (\<exists>q\<in>set qs. field q ''question'' = JStr t) \<and>
                  spec_answer txt t a"
  proof (intro allI)
    fix t a
    show "m t = Some a \<longleftrightarrow>
                  t \<noteq> ''__proto__'' \<and> (\<exists>q\<in>set qs. field q ''question'' = JStr t) \<and>
                  spec_answer txt t a"
    proof (cases "\<exists>q\<in>set qs. field q ''question'' = JStr t")
      case False
      with m(2) show ?thesis by simp
    next
      case True
      with A have "\<not> empty_last txt t" by auto
      then have "extracted txt t = rule_answer txt t" by (rule extracted_follows_rule)
      with m(2) True show ?thesis by (auto simp: spec_answer_computed)
    qed
  qed
  ultimately show ?thesis by blast
qed

text \<open>
  Claim C3 fails on the code, for an answer that is empty and the last one of the text.
  On the two texts of the specification the fallback parser yields the stated objects:
  \<open>{ "Color?": "blue", "Size?": "large" }\<close> for the text
  \<open>"Color?"="blue", "Size?"="large"\<close> with the questions \<open>Color?\<close> and \<open>Size?\<close>, and
  \<open>{ "Color?": "blue and green" }\<close> for the text \<open>"Color?"="blue and green"\<close> with the
  question \<open>Color?\<close>.  The rule of the claim (next delimiter, else last quotation mark,
  else end of string) is the program's on every text but one kind: when the answer is
  empty and the last one of the text, the last quotation mark stands at the first
  position of the answer; the rule takes the text up to that mark, which is the empty
  answer (\<open>spec_answer_empty\<close>), but the program's test \<open>end <= start\<close> sets the mark
  aside and the answer becomes the rest of the string from the closing quotation mark
  on.  So for the question \<open>Q\<close> the text \<open>"Q"=""\<close> yields the answer \<open>"\<close>, and the sentence
  \<open>User has answered your questions: "Q"="".\<close> yields the answer \<open>".\<close>
\<close>

theorem fallback_empty_last_answer:
  "parseAnswersFromContent (JStr empty_answer_text) (JArr [question_obj ''Q''])
     = Some [''Q'' \<mapsto> [dquote]]
   \<and> parseAnswersFromContent (JStr empty_answer_sentence) (JArr [question_obj ''Q''])
     = Some [''Q'' \<mapsto> dquote # ''.'']
   \<and> parseAnswersFromContent (JStr color_size_text)
        (JArr [question_obj ''Color?'', question_obj ''Size?''])
       = Some [''Color?'' \<mapsto> ''blue'', ''Size?'' \<mapsto> ''large'']
   \<and> parseAnswersFromContent (JStr color_text) (JArr [question_obj ''Color?''])
       = Some [''Color?'' \<mapsto> ''blue and green'']"
  by (intro conjI) (rule parse_empty, rule parse_empty_sentence, rule parse_color_size, rule parse_color)

text \<open>
  Claim C10.  For a content value that is not a string the fallback parser returns the
  empty object without throwing, whatever the question list is.  For a string content,
  whenever the parser returns, the question list was iterable, every key of the result
  is the (string conversion of the) question text of one of its elements, and the result
  has at most one entry for each element of the list.
\<close>

theorem parseAnswersFromContent_total_and_keys:
  "((\<forall>s. contentStr \<noteq> JStr s) \<longrightarrow> parseAnswersFromContent contentStr qv = Some Map.empty)
   \<and> (parseAnswersFromContent (JStr txt) qv' = Some m \<longrightarrow>
        (\<exists>qs. iterate qv' = Some qs \<and>
           (\<forall>k\<in>dom m. \<exists>q\<in>set qs. \<exists>v. getp q ''question'' = Some v \<and> to_string v = Some k) \<and>
           finite (dom m) \<and> card (dom m) \<le> length qs))"
proof (intro conjI impI)
  assume "\<forall>s. contentStr \<noteq> JStr s"
  then show "parseAnswersFromContent contentStr qv = Some Map.empty"
    by (cases contentStr) (simp_all add: parseAnswersFromContent_def)
next
  assume P: "parseAnswersFromContent (JStr txt) qv' = Some m"
  then obtain qs where qs: "iterate qv' = Some qs" "parse_questions txt qs Map.empty = Some m"
    by (auto simp: parseAnswersFromContent_def split: Option.bind_splits)
  from parse_questions_dom[OF qs(2)]
  have "dom m \<subseteq> {k. \<exists>q\<in>set qs. \<exists>v. getp q ''question'' = Some v \<and> to_string v = Some k}"
    "finite (dom m)" "card (dom m) \<le> length qs" by auto
  with qs(1) show "\<exists>qs. iterate qv' = Some qs \<and>
           (\<forall>k\<in>dom m. \<exists>q\<in>set qs. \<exists>v. getp q ''question'' = Some v \<and> to_string v = Some k) \<and>
           finite (dom m) \<and> card (dom m) \<le> length qs" by blast
qed

text \<open>
  C10 at a number as content with \<open>null\<close> as question list, and at the second text of the
  specification.
\<close>

theorem parseAnswersFromContent_total_and_keys_witness:
  "(\<forall>s. JNum ''5'' \<noteq> JStr s)
   \<and> parseAnswersFromContent (JNum ''5'') JNull = Some Map.empty
   \<and> parseAnswersFromContent (JStr color_text) (JArr [question_obj ''Color?''])
       = Some [''Color?'' \<mapsto> ''blue and green'']
   \<and> (\<exists>qs. iterate (JArr [question_obj ''Color?'']) = Some qs \<and>
         (\<forall>k\<in>dom [''Color?'' \<mapsto> ''blue and green''].
             \<exists>q\<in>set qs. \<exists>v. getp q ''question'' = Some v \<and> to_string v = Some k) \<and>
         finite (dom [''Color?'' \<mapsto> ''blue and green'']) \<and>
         card (dom [''Color?'' \<mapsto> ''blue and green'']) \<le> length qs)"
proof -
  have H1: "\<forall>s. JNum ''5'' \<noteq> JStr s" by simp
  have H2: "parseAnswersFromContent (JStr color_text) (JArr [question_obj ''Color?''])
       = Some [''Color?'' \<mapsto> ''blue and green'']" by (rule parse_color)
  note T = parseAnswersFromContent_total_and_keys
    [of "JNum ''5''" JNull color_text "JArr [question_obj ''Color?'']" "[''Color?'' \<mapsto> ''blue and green'']"]
  from T H1 have C1: "parseAnswersFromContent (JNum ''5'') JNull = Some Map.empty" by blast
  from T H2 have C2: "\<exists>qs. iterate (JArr [question_obj ''Color?'']) = Some qs \<and>
         (\<forall>k\<in>dom [''Color?'' \<mapsto> ''blue and green''].
             \<exists>q\<in>set qs. \<exists>v. getp q ''question'' = Some v \<and> to_string v = Some k) \<and>
         finite (dom [''Color?'' \<mapsto> ''blue and green'']) \<and>
         card (dom [''Color?'' \<mapsto> ''blue and green'']) \<le> length qs" by blast
  from H1 C1 H2 C2 show ?thesis by blast
qed

section \<open>The Correlator: pass 1\<close>

lemma index_block_Some:
  assumes "index_block i e b m = Some m'"
  shows "\<not> nullish b \<and> m' = (if is_request b then map_set m (field b ''id'') (ask_of i e b) else m)"
  using assms
  by (auto simp: index_block_def getp_def is_request_def ask_of_def split: if_splits)

lemma index_blocks_Some:
  assumes "index_blocks i e bs m = Some m'"
  shows "m' k = (let R = filter (\<lambda>b. is_request b \<and> field b ''id'' = k) bs
                 in if primitive k \<and> R \<noteq> [] then Some (ask_of i e (last R)) else m k)"
  using assms
proof (induction bs arbitrary: m)
  case Nil
  then show ?case by simp
next
  case (Cons b bs)
  then obtain m1 where s1: "index_block i e b m = Some m1" and s2: "index_blocks i e bs m1 = Some m'"
    by (auto split: Option.bind_splits)
  from index_block_Some[OF s1]
  have m1: "m1 = (if is_request b then map_set m (field b ''id'') (ask_of i e b) else m)" by simp
  have m1k: "m1 k = (if is_request b \<and> field b ''id'' = k \<and> primitive k then Some (ask_of i e b) else m k)"
    by (auto simp: m1 map_set_def)
  show ?case using Cons.IH[OF s2] m1k by (auto simp: Let_def)
qed

lemma index_entry_Some:
  assumes "index_entry i e m = Some m'"
  shows "m' k = (let R = filter (\<lambda>b. is_request b \<and> field b ''id'' = k) (blocks_of ''assistant'' e)
                 in if primitive k \<and> R \<noteq> [] then Some (ask_of i e (last R)) else m k)"
proof -
  from assms have ne: "\<not> nullish e" by (auto simp: index_entry_def getp_def split: if_splits)
  show ?thesis
  proof (cases "field e ''type'' = JStr ''assistant''")
    case False
    then show ?thesis using assms ne by (simp add: index_entry_def getp_def blocks_of_def)
  next
    case True
    show ?thesis
    proof (cases "field (field e ''message'') ''content''")
      case (JArr bs)
      then have "index_blocks i e bs m = Some m'" using assms ne True
        by (simp add: index_entry_def getp_def)
      from index_blocks_Some[OF this, of k] show ?thesis using True JArr by (simp add: blocks_of_def)
    qed (use assms ne True in \<open>auto simp: index_entry_def getp_def blocks_of_def split: if_splits\<close>)
  qed
qed

lemma index_entries_Some:
  assumes "index_entries i es m = Some m'"
  shows "m' k = (let R = role_blocks ''assistant'' (\<lambda>b. is_request b \<and> field b ''id'' = k) i es
                 in if primitive k \<and> R \<noteq> []
                    then Some (case last R of (j, e, b) \<Rightarrow> ask_of j e b) else m k)"
  using assms
proof (induction es arbitrary: i m)
  case Nil
  then show ?case by simp
next
  case (Cons e es)
  then obtain m1 where s1: "index_entry i e m = Some m1" and s2: "index_entries (Suc i) es m1 = Some m'"
    by (auto split: Option.bind_splits)
  define R1 where "R1 = filter (\<lambda>b. is_request b \<and> field b ''id'' = k) (blocks_of ''assistant'' e)"
  define R2 where "R2 = role_blocks ''assistant'' (\<lambda>b. is_request b \<and> field b ''id'' = k) (Suc i) es"
  have m1k: "m1 k = (if primitive k \<and> R1 \<noteq> [] then Some (ask_of i e (last R1)) else m k)"
    using index_entry_Some[OF s1, of k] by (simp add: R1_def Let_def)
  have m'k: "m' k = (if primitive k \<and> R2 \<noteq> []
                    then Some (case last R2 of (j, e, b) \<Rightarrow> ask_of j e b) else m1 k)"
    using Cons.IH[OF s2] by (simp add: R2_def Let_def)
  have R: "role_blocks ''assistant'' (\<lambda>b. is_request b \<and> field b ''id'' = k) i (e # es)
            = map (\<lambda>b. (i, e, b)) R1 @ R2" by (simp add: R1_def R2_def)
  show ?case unfolding R Let_def using m1k m'k by (auto simp: last_map)
qed

lemma index_entries_inv:
  assumes "index_entries 0 es Map.empty = Some m" "m k = Some a"
  shows "primitive k \<and> ask_toolUseId a = k"
proof -
  define R where "R = role_blocks ''assistant'' (\<lambda>b. is_request b \<and> field b ''id'' = k) 0 es"
  have mk: "m k = (if primitive k \<and> R \<noteq> [] then Some (case last R of (j, e, b) \<Rightarrow> ask_of j e b) else None)"
    using index_entries_Some[OF assms(1), of k] by (simp add: R_def Let_def)
  with assms(2) have p: "primitive k" "R \<noteq> []" and a: "a = (case last R of (j, e, b) \<Rightarrow> ask_of j e b)"
    by (auto split: if_splits)
  have "\<forall>x\<in>set R. field (snd (snd x)) ''id'' = k"
  proof -
    have "\<And>i. \<forall>x\<in>set (role_blocks ''assistant'' (\<lambda>b. is_request b \<and> field b ''id'' = k) i es).
             field (snd (snd x)) ''id'' = k"
      by (induction es) auto
    then show ?thesis by (simp add: R_def)
  qed
  moreover have "last R \<in> set R" using p(2) by simp
  ultimately have "field (snd (snd (last R))) ''id'' = k" by blast
  then have "ask_toolUseId a = k" by (cases "last R") (auto simp: a ask_of_def)
  with p show ?thesis by simp
qed

section \<open>The Correlator: pass 2\<close>

lemma match_block_Some:
  assumes "match_block m i e b acc = Some ps"
  shows "ps = acc @ map (pair_of m) (map (\<lambda>b. (i, e, b)) (filter (hit m) [b]))
         \<and> (hit m b \<longrightarrow> resolve_answers e b (the (m (field b ''tool_use_id''))) \<noteq> None)"
  using assms
  by (auto simp: match_block_def getp_def hit_def is_response_def pair_of_def
           split: Option.bind_splits option.splits if_splits)

lemma match_blocks_Some:
  assumes "match_blocks m i e bs acc = Some ps"
  shows "ps = acc @ map (pair_of m) (map (\<lambda>b. (i, e, b)) (filter (hit m) bs))
         \<and> (\<forall>b\<in>set bs. hit m b \<longrightarrow> resolve_answers e b (the (m (field b ''tool_use_id''))) \<noteq> None)"
  using assms
proof (induction bs arbitrary: acc)
  case Nil
  then show ?case by simp
next
  case (Cons b bs)
  then obtain p1 where s1: "match_block m i e b acc = Some p1" and s2: "match_blocks m i e bs p1 = Some ps"
    by (auto split: Option.bind_splits)
  from match_block_Some[OF s1] Cons.IH[OF s2] show ?case by auto
qed

lemma match_entry_Some:
  assumes "match_entry m i e acc = Some ps"
  shows "ps = acc @ map (pair_of m) (map (\<lambda>b. (i, e, b)) (filter (hit m) (blocks_of ''user'' e)))
         \<and> (\<forall>b\<in>set (blocks_of ''user'' e). hit m b \<longrightarrow>
               resolve_answers e b (the (m (field b ''tool_use_id''))) \<noteq> None)"
proof -
  from assms have ne: "\<not> nullish e" by (auto simp: match_entry_def getp_def split: if_splits)
  show ?thesis
  proof (cases "field e ''type'' = JStr ''user''")
    case False
    then show ?thesis using assms ne by (simp add: match_entry_def getp_def blocks_of_def)
  next
    case True
    show ?thesis
    proof (cases "field (field e ''message'') ''content''")
      case (JArr bs)
      then have "match_blocks m i e bs acc = Some ps" using assms ne True
        by (simp add: match_entry_def getp_def)
      from match_blocks_Some[OF this] show ?thesis using True JArr by (simp add: blocks_of_def)
    qed (use assms ne True in \<open>auto simp: match_entry_def getp_def blocks_of_def split: if_splits\<close>)
  qed
qed

lemma match_entries_Some:
  assumes "match_entries m i es acc = Some ps"
  shows "ps = acc @ map (pair_of m) (role_blocks ''user'' (hit m) i es)
         \<and> (\<forall>(j, e, b)\<in>set (role_blocks ''user'' (hit m) i es).
               resolve_answers e b (the (m (field b ''tool_use_id''))) \<noteq> None)"
  using assms
proof (induction es arbitrary: i acc)
  case Nil
  then show ?case by simp
next
  case (Cons e es)
  then obtain p1 where s1: "match_entry m i e acc = Some p1" and s2: "match_entries m (Suc i) es p1 = Some ps"
    by (auto split: Option.bind_splits)
  from match_entry_Some[OF s1] Cons.IH[OF s2] show ?case by auto
qed

lemma role_blocks_filter:
  "filter (\<lambda>(j, e, b). Q b) (role_blocks r P i es) = role_blocks r (\<lambda>b. P b \<and> Q b) i es"
  by (induction es arbitrary: i) (auto simp: filter_map comp_def)

lemma role_blocks_fst:
  "sorted (map fst (role_blocks r P i es)) \<and> (\<forall>x\<in>set (role_blocks r P i es). i \<le> fst x \<and> fst x < i + length es)"
proof (induction es arbitrary: i)
  case Nil
  then show ?case by simp
next
  case (Cons e es)
  have "\<forall>x\<in>set (role_blocks r P (Suc i) es). Suc i \<le> fst x \<and> fst x < Suc i + length es"
    and "sorted (map fst (role_blocks r P (Suc i) es))"
    using Cons.IH[of "Suc i"] by blast+
  then show ?case by (auto simp: sorted_append comp_def map_replicate_const)
qed

lemma role_blocks_nth:
  "(j, e, b) \<in> set (role_blocks r P i es) \<Longrightarrow> i \<le> j \<and> j - i < length es \<and> es ! (j - i) = e \<and> b \<in> set (blocks_of r e) \<and> P b"
proof (induction es arbitrary: i)
  case Nil
  then show ?case by simp
next
  case (Cons a es)
  from Cons.prems consider "j = i" "e = a" "b \<in> set (blocks_of r a)" "P b"
    | "(j, e, b) \<in> set (role_blocks r P (Suc i) es)" by auto
  then show ?case
  proof cases
    case 1 then show ?thesis by simp
  next
    case 2
    from Cons.IH[OF 2] have "Suc i \<le> j" "j - Suc i < length es" "es ! (j - Suc i) = e"
      "b \<in> set (blocks_of r e)" "P b" by auto
    moreover from \<open>Suc i \<le> j\<close> have "j - i = Suc (j - Suc i)" by simp
    ultimately show ?thesis by simp
  qed
qed

lemma answerLineIndex_pair_of: "answerLineIndex (pair_of m (j, e, b)) = j"
  by (simp add: pair_of_def make_pair_def Let_def)

lemma extractQAPairs_Some:
  assumes "extractQAPairs es = Some ps"
  shows "\<exists>m. index_entries 0 es Map.empty = Some m
             \<and> ps = map (pair_of m) (role_blocks ''user'' (hit m) 0 es)
             \<and> (\<forall>(j, e, b)\<in>set (role_blocks ''user'' (hit m) 0 es).
                   resolve_answers e b (the (m (field b ''tool_use_id''))) \<noteq> None)"
proof -
  from assms obtain m where m: "index_entries 0 es Map.empty = Some m"
    and p: "match_entries m 0 es [] = Some ps"
    by (auto simp: extractQAPairs_def split: Option.bind_splits)
  from match_entries_Some[OF p] m show ?thesis by auto
qed

lemma sorted_answerLineIndex:
  assumes "extractQAPairs es = Some ps"
  shows "sorted (map answerLineIndex ps)"
proof -
  from extractQAPairs_Some[OF assms] obtain m where
    ps: "ps = map (pair_of m) (role_blocks ''user'' (hit m) 0 es)" by blast
  have "map answerLineIndex ps = map fst (role_blocks ''user'' (hit m) 0 es)"
    unfolding ps by (auto simp: answerLineIndex_pair_of)
  then show ?thesis using role_blocks_fst[of "''user''" "hit m" 0 es] by simp
qed


section \<open>The Correlator does not throw on well-formed records\<close>

lemma index_blocks_total:
  "\<forall>b\<in>set bs. \<not> nullish b \<Longrightarrow> index_blocks i e bs m \<noteq> None"
  by (induction bs arbitrary: m) (auto simp: index_block_def getp_def)

lemma index_entry_total:
  assumes "wf_record e"
  shows "index_entry i e m \<noteq> None"
proof (cases "field e ''type'' = JStr ''assistant''")
  case False
  then show ?thesis using assms by (simp add: index_entry_def getp_def wf_record_def)
next
  case True
  show ?thesis
  proof (cases "field (field e ''message'') ''content''")
    case (JArr bs)
    then have "\<forall>b\<in>set bs. \<not> nullish b" using assms True by (simp add: wf_record_def blocks_of_def)
    from index_blocks_total[OF this] show ?thesis using assms True JArr
      by (simp add: index_entry_def getp_def wf_record_def)
  qed (use assms True in \<open>auto simp: index_entry_def getp_def wf_record_def\<close>)
qed

lemma index_entries_total:
  "\<forall>e\<in>set es. wf_record e \<Longrightarrow> index_entries i es m \<noteq> None"
proof (induction es arbitrary: i m)
  case Nil
  then show ?case by simp
next
  case (Cons e es)
  then obtain m1 where "index_entry i e m = Some m1" using index_entry_total[of e i m] by auto
  with Cons show ?case by simp
qed

lemma parse_questions_total:
  "\<forall>q\<in>set qs. \<not> nullish q \<and> to_string (field q ''question'') \<noteq> None \<Longrightarrow>
     parse_questions txt qs m \<noteq> None"
proof (induction qs arbitrary: m)
  case Nil
  then show ?case by simp
next
  case (Cons q qs)
  then obtain k where "to_string (field q ''question'') = Some k" "\<not> nullish q" by auto
  then obtain m1 where "parse_question txt q m = Some m1"
    by (cases "indexOf txt (pattern_of k) 0") (auto simp: parse_question_def getp_def Let_def)
  with Cons show ?case by simp
qed

lemma parseAnswersFromContent_total:
  assumes "wf_questions qv"
  shows "parseAnswersFromContent c qv \<noteq> None"
proof (cases "\<exists>s. c = JStr s")
  case False
  then show ?thesis by (cases c) (simp_all add: parseAnswersFromContent_def)
next
  case True
  then obtain s where c: "c = JStr s" by blast
  from assms consider qs where "qv = JArr qs"
      "\<forall>q\<in>set qs. \<not> nullish q \<and> to_string (field q ''question'') \<noteq> None"
    | t where "qv = JStr t"
    by (cases qv) (auto simp: wf_questions_def list_all_iff)
  then show ?thesis
  proof cases
    case 1
    with parse_questions_total[OF 1(2), of s Map.empty] show ?thesis
      by (auto simp: parseAnswersFromContent_def c)
  next
    case 2
    have "\<forall>q\<in>set (map (\<lambda>c. JStr [c]) t). \<not> nullish q \<and> to_string (field q ''question'') \<noteq> None"
      by auto
    from parse_questions_total[OF this, of s Map.empty] show ?thesis
      by (auto simp: parseAnswersFromContent_def c 2)
  qed
qed

lemma resolve_answers_total:
  "wf_questions (ask_questions a) \<Longrightarrow> resolve_answers e b a \<noteq> None"
  using parseAnswersFromContent_total[of "ask_questions a" "field b ''content''"]
  by (auto simp: resolve_answers_def)

lemma match_blocks_total:
  assumes "\<forall>k a. m k = Some a \<longrightarrow> wf_questions (ask_questions a)" "\<forall>b\<in>set bs. \<not> nullish b"
  shows "match_blocks m i e bs acc \<noteq> None"
  using assms(2)
proof (induction bs arbitrary: acc)
  case Nil
  then show ?case by simp
next
  case (Cons b bs)
  have "match_block m i e b acc \<noteq> None"
  proof (cases "m (field b ''tool_use_id'')")
    case None
    then show ?thesis using Cons.prems by (simp add: match_block_def getp_def)
  next
    case (Some a)
    with assms(1) have "wf_questions (ask_questions a)" by blast
    from resolve_answers_total[OF this, of e b] obtain ans where "resolve_answers e b a = Some ans"
      by auto
    then show ?thesis using Cons.prems Some by (simp add: match_block_def getp_def)
  qed
  then obtain p1 where "match_block m i e b acc = Some p1" by auto
  with Cons show ?case by simp
qed

lemma match_entry_total:
  assumes "\<forall>k a. m k = Some a \<longrightarrow> wf_questions (ask_questions a)" "wf_record e"
  shows "match_entry m i e acc \<noteq> None"
proof (cases "field e ''type'' = JStr ''user''")
  case False
  then show ?thesis using assms(2) by (simp add: match_entry_def getp_def wf_record_def)
next
  case True
  show ?thesis
  proof (cases "field (field e ''message'') ''content''")
    case (JArr bs)
    then have "\<forall>b\<in>set bs. \<not> nullish b" using assms(2) True by (simp add: wf_record_def blocks_of_def)
    from match_blocks_total[OF assms(1) this] show ?thesis using assms(2) True JArr
      by (simp add: match_entry_def getp_def wf_record_def)
  qed (use assms(2) True in \<open>auto simp: match_entry_def getp_def wf_record_def\<close>)
qed

lemma match_entries_total:
  assumes "\<forall>k a. m k = Some a \<longrightarrow> wf_questions (ask_questions a)" "\<forall>e\<in>set es. wf_record e"
  shows "match_entries m i es acc \<noteq> None"
  using assms(2)
proof (induction es arbitrary: i acc)
  case Nil
  then show ?case by simp
next
  case (Cons e es)
  then obtain p1 where "match_entry m i e acc = Some p1"
    using match_entry_total[OF assms(1), of e i acc] by auto
  with Cons show ?case by simp
qed

lemma extractQAPairs_total:
  assumes wf: "\<forall>e\<in>set es. wf_record e"
  shows "extractQAPairs es \<noteq> None"
proof -
  from index_entries_total[OF wf, of 0 Map.empty] obtain m
    where m: "index_entries 0 es Map.empty = Some m" by auto
  have "\<forall>k a. m k = Some a \<longrightarrow> wf_questions (ask_questions a)"
  proof (intro allI impI)
    fix k a assume mk: "m k = Some a"
    define R where "R = role_blocks ''assistant'' (\<lambda>b. is_request b \<and> field b ''id'' = k) 0 es"
    from index_entries_Some[OF m, of k] mk
    have R: "R \<noteq> []" and a: "a = (case last R of (j, e, b) \<Rightarrow> ask_of j e b)"
      by (auto simp: R_def Let_def split: if_splits)
    obtain j e b where l: "last R = (j, e, b)" by (cases "last R") auto
    then have "(j, e, b) \<in> set R" using R last_in_set by metis
    from role_blocks_nth[OF this[unfolded R_def]]
    have "j < length es" "es ! j = e" "b \<in> set (blocks_of ''assistant'' e)" "is_request b" by auto
    moreover then have "wf_record e" using wf by (metis nth_mem)
    ultimately have "wf_questions (or_empty (field (field b ''input'') ''questions''))"
      by (auto simp: wf_record_def)
    then show "wf_questions (ask_questions a)" by (simp add: a l ask_of_def)
  qed
  from match_entries_total[OF this wf, of 0 "[]"] m show ?thesis
    by (simp add: extractQAPairs_def)
qed

section \<open>The Correlator: one pair for each response\<close>

lemma role_blocks_cong:
  assumes "\<And>b. P b = Q b"
  shows "role_blocks r P i es = role_blocks r Q i es"
proof -
  from assms have "P = Q" by (rule ext)
  then show ?thesis by simp
qed

lemma role_blocks_False: "role_blocks r (\<lambda>b. False) i es = []"
  by (induction es arbitrary: i) auto

lemma pairs_for_id:
  assumes ex: "extractQAPairs es = Some ps"
    and m: "index_entries 0 es Map.empty = Some m"
  shows "filter (\<lambda>p. toolUseId p = k) ps =
           (if m k = None then [] else map (pair_of m) (responses_for k es))"
proof -
  define H where "H = role_blocks ''user'' (hit m) 0 es"
  from extractQAPairs_Some[OF ex] m have ps: "ps = map (pair_of m) H" by (auto simp: H_def)
  have tid: "\<And>x. x \<in> set H \<Longrightarrow> toolUseId (pair_of m x) = field (snd (snd x)) ''tool_use_id''"
  proof -
    fix x assume "x \<in> set H"
    obtain j e b where x: "x = (j, e, b)" by (cases x) auto
    with \<open>x \<in> set H\<close> have "hit m b" using role_blocks_nth[of j e b "''user''" "hit m" 0 es]
      by (simp add: H_def)
    then obtain a where a: "m (field b ''tool_use_id'') = Some a" by (auto simp: hit_def)
    from index_entries_inv[OF m a] have "ask_toolUseId a = field b ''tool_use_id''" by simp
    then show "toolUseId (pair_of m x) = field (snd (snd x)) ''tool_use_id''"
      by (simp add: x pair_of_def a make_pair_def)
  qed
  have "filter (\<lambda>p. toolUseId p = k) ps = map (pair_of m) (filter (\<lambda>x. toolUseId (pair_of m x) = k) H)"
    by (simp add: ps filter_map comp_def)
  also have "filter (\<lambda>x. toolUseId (pair_of m x) = k) H = filter (\<lambda>(j, e, b). field b ''tool_use_id'' = k) H"
    by (rule filter_cong) (auto simp: tid)
  also have "\<dots> = role_blocks ''user'' (\<lambda>b. hit m b \<and> field b ''tool_use_id'' = k) 0 es"
    by (simp add: H_def role_blocks_filter)
  finally have F: "filter (\<lambda>p. toolUseId p = k) ps =
      map (pair_of m) (role_blocks ''user'' (\<lambda>b. hit m b \<and> field b ''tool_use_id'' = k) 0 es)" .
  show ?thesis
  proof (cases "m k")
    case None
    have "role_blocks ''user'' (\<lambda>b. hit m b \<and> field b ''tool_use_id'' = k) 0 es
            = role_blocks ''user'' (\<lambda>b. False) 0 es"
      by (rule role_blocks_cong) (use None in \<open>auto simp: hit_def\<close>)
    also have "\<dots> = []" by (rule role_blocks_False)
    finally show ?thesis using F None by simp
  next
    case (Some a)
    have "role_blocks ''user'' (\<lambda>b. hit m b \<and> field b ''tool_use_id'' = k) 0 es
            = responses_for k es"
      unfolding responses_for_def by (rule role_blocks_cong) (use Some in \<open>auto simp: hit_def\<close>)
    then show ?thesis using F Some by simp
  qed
qed


lemma role_blocks_mem:
  assumes "j < length es" "es ! j = e" "b \<in> set (blocks_of r e)" "P b"
  shows "(i + j, e, b) \<in> set (role_blocks r P i es)"
  using assms
proof (induction es arbitrary: i j)
  case Nil
  then show ?case by simp
next
  case (Cons a es)
  show ?case
  proof (cases j)
    case 0
    with Cons.prems show ?thesis by auto
  next
    case (Suc j')
    with Cons.prems have "(Suc i + j', e, b) \<in> set (role_blocks r P (Suc i) es)"
      by (intro Cons.IH) auto
    with Suc show ?thesis by simp
  qed
qed


lemma parse_size:
  "parseAnswersFromContent (JStr (quoted ''Size?'' @ ''='' @ quoted ''large''))
     (JArr [question_obj ''Size?'']) = Some [''Size?'' \<mapsto> ''large'']"
proof -
  define T where "T = quoted ''Size?'' @ ''='' @ quoted ''large''"
  have e: "extracted T ''Size?'' = Some ''large''" unfolding T_def by code_simp
  have "parseAnswersFromContent (JStr T) (JArr [question_obj ''Size?''])
          = Some [''Size?'' \<mapsto> ''large'']"
    by (simp add: parseAnswersFromContent_def question_obj_def parse_question_typed e
          assign_answer_def)
  then show ?thesis unfolding T_def .
qed

text \<open>
  Claim C1.  On records that are well formed the Correlator returns a list of pairs.
  Whenever it returns, and the id \<open>k\<close> is a primitive value (an id that is an array or an
  object is never found again), and the request block \<open>breq\<close> of the assistant record at
  position \<open>i\<close> is the one registered under \<open>k\<close> (the last one, should the id occur more
  than once), and exactly one response block that is not flagged as an error carries
  \<open>k\<close>, namely \<open>bresp\<close> in the user record at position \<open>j\<close>: then exactly one of the
  emitted pairs has the id \<open>k\<close>.  It joins the question list of \<open>breq\<close> with the resolved
  answers of the response: the value \<open>toolUseResult.answers\<close> of the response record when
  that value is truthy, and otherwise the object that the fallback parser builds from the
  content of \<open>bresp\<close> and the question list of \<open>breq\<close>.
\<close>

theorem extractQAPairs_joins:
  "((\<forall>e\<in>set parsedLines. wf_record e) \<longrightarrow> extractQAPairs parsedLines \<noteq> None)
   \<and> (extractQAPairs parsedLines = Some pairs \<and> primitive k
        \<and> requests_for k parsedLines = rs @ [(i, ereq, breq)]
        \<and> responses_for k parsedLines = [(j, eresp, bresp)]
      \<longrightarrow> parsedLines ! i = ereq \<and> parsedLines ! j = eresp
          \<and> (\<exists>ans. filter (\<lambda>p. toolUseId p = k) pairs =
                    [\<lparr> questions = or_empty (field (field breq ''input'') ''questions''),
                       answers = ans,
                       askTimestamp = field ereq ''timestamp'',
                       answerTimestamp = field eresp ''timestamp'',
                       askLineIndex = i,
                       answerLineIndex = j,
                       toolUseId = k \<rparr>]
                \<and> (if truthy (field (field eresp ''toolUseResult'') ''answers'')
                    then ans = Structured (field (field eresp ''toolUseResult'') ''answers'')
                    else \<exists>m. parseAnswersFromContent (field bresp ''content'')
                                (or_empty (field (field breq ''input'') ''questions'')) = Some m
                             \<and> ans = Parsed m)))"
proof (rule conjI; rule impI)
  assume "\<forall>e\<in>set parsedLines. wf_record e"
  then show "extractQAPairs parsedLines \<noteq> None" by (rule extractQAPairs_total)
next
  assume A: "extractQAPairs parsedLines = Some pairs \<and> primitive k
        \<and> requests_for k parsedLines = rs @ [(i, ereq, breq)]
        \<and> responses_for k parsedLines = [(j, eresp, bresp)]"
  then have ex: "extractQAPairs parsedLines = Some pairs" and pk: "primitive k"
    and rq: "requests_for k parsedLines = rs @ [(i, ereq, breq)]"
    and rp: "responses_for k parsedLines = [(j, eresp, bresp)]" by blast+
  from extractQAPairs_Some[OF ex] obtain m where m: "index_entries 0 parsedLines Map.empty = Some m"
    and ps: "pairs = map (pair_of m) (role_blocks ''user'' (hit m) 0 parsedLines)"
    and rs: "\<forall>(j, e, b)\<in>set (role_blocks ''user'' (hit m) 0 parsedLines).
                   resolve_answers e b (the (m (field b ''tool_use_id''))) \<noteq> None" by blast
  have mk: "m k = Some (ask_of i ereq breq)"
    using index_entries_Some[OF m, of k] pk rq by (simp add: requests_for_def Let_def)
  have "(i, ereq, breq) \<in> set (requests_for k parsedLines)" by (simp add: rq)
  from role_blocks_nth[OF this[unfolded requests_for_def]]
  have idk: "field breq ''id'' = k" and ni: "parsedLines ! i = ereq" by auto
  have "(j, eresp, bresp) \<in> set (responses_for k parsedLines)" by (simp add: rp)
  from role_blocks_nth[OF this[unfolded responses_for_def]]
  have b: "is_response bresp" "field bresp ''tool_use_id'' = k" "\<not> truthy (field bresp ''is_error'')"
    and nj: "parsedLines ! j = eresp" by auto
  have F: "filter (\<lambda>p. toolUseId p = k) pairs = [pair_of m (j, eresp, bresp)]"
    using pairs_for_id[OF ex m, of k] mk rp by simp
  have "hit m bresp" using b mk by (simp add: hit_def)
  moreover from role_blocks_nth[OF \<open>(j, eresp, bresp) \<in> set (responses_for k parsedLines)\<close>[unfolded responses_for_def]]
  have "j < length parsedLines" "bresp \<in> set (blocks_of ''user'' eresp)" by auto
  ultimately have "(0 + j, eresp, bresp) \<in> set (role_blocks ''user'' (hit m) 0 parsedLines)"
    using nj by (intro role_blocks_mem) auto
  then have "(j, eresp, bresp) \<in> set (role_blocks ''user'' (hit m) 0 parsedLines)" by simp
  with rs have "resolve_answers eresp bresp (the (m (field bresp ''tool_use_id''))) \<noteq> None" by blast
  then obtain ans where ans: "resolve_answers eresp bresp (ask_of i ereq breq) = Some ans"
    using b(2) mk by auto
  have R: "if truthy (field (field eresp ''toolUseResult'') ''answers'')
           then ans = Structured (field (field eresp ''toolUseResult'') ''answers'')
           else \<exists>m. parseAnswersFromContent (field bresp ''content'')
                       (or_empty (field (field breq ''input'') ''questions'')) = Some m
                    \<and> ans = Parsed m"
    using ans by (auto simp: resolve_answers_def ask_of_def)
  have "pair_of m (j, eresp, bresp) =
           \<lparr> questions = or_empty (field (field breq ''input'') ''questions''),
             answers = ans,
             askTimestamp = field ereq ''timestamp'',
             answerTimestamp = field eresp ''timestamp'',
             askLineIndex = i,
             answerLineIndex = j,
             toolUseId = k \<rparr>"
  proof -
    have "pair_of m (j, eresp, bresp) = make_pair j eresp (ask_of i ereq breq) ans"
      by (simp add: pair_of_def b(2) mk ans)
    then show ?thesis by (simp add: make_pair_def ask_of_def idk)
  qed
  with F have F': "filter (\<lambda>p. toolUseId p = k) pairs =
                    [\<lparr> questions = or_empty (field (field breq ''input'') ''questions''),
                       answers = ans,
                       askTimestamp = field ereq ''timestamp'',
                       answerTimestamp = field eresp ''timestamp'',
                       askLineIndex = i,
                       answerLineIndex = j,
                       toolUseId = k \<rparr>]" by simp
  from ni nj F' R
  show "parsedLines ! i = ereq \<and> parsedLines ! j = eresp
          \<and> (\<exists>ans. filter (\<lambda>p. toolUseId p = k) pairs =
                    [\<lparr> questions = or_empty (field (field breq ''input'') ''questions''),
                       answers = ans,
                       askTimestamp = field ereq ''timestamp'',
                       answerTimestamp = field eresp ''timestamp'',
                       askLineIndex = i,
                       answerLineIndex = j,
                       toolUseId = k \<rparr>]
                \<and> (if truthy (field (field eresp ''toolUseResult'') ''answers'')
                    then ans = Structured (field (field eresp ''toolUseResult'') ''answers'')
                    else \<exists>m. parseAnswersFromContent (field bresp ''content'')
                                (or_empty (field (field breq ''input'') ''questions'')) = Some m
                             \<and> ans = Parsed m))"
    by (intro conjI exI[of _ ans])
qed

text \<open>
  C1 on the log with two questions answered in the opposite order: the question with the
  id \<open>X\<close>, asked in record 0 and answered in record 3 through the structured side channel,
  and the question with the id \<open>Y\<close>, asked in record 1 and answered in record 2, whose
  answer the fallback parser reads from the text of the response.
\<close>

theorem extractQAPairs_joins_witness:
  "list_all wf_record out_of_order_log
   \<and> extractQAPairs out_of_order_log \<noteq> None
   \<and> primitive (JStr ''X'')
   \<and> requests_for (JStr ''X'') out_of_order_log
        = [] @ [(0, out_of_order_log ! 0, ask_block ''X'' ''Color?'')]
   \<and> responses_for (JStr ''X'') out_of_order_log
        = [(3, out_of_order_log ! 3, result_block ''X'' ''ok'')]
   \<and> field (field (out_of_order_log ! 3) ''toolUseResult'') ''answers''
        = JObj [(''Color?'', JStr ''blue'')]
   \<and> filter (\<lambda>p. toolUseId p = JStr ''X'') (the (extractQAPairs out_of_order_log)) =
        [\<lparr> questions = JArr [question_obj ''Color?''],
           answers = Structured (JObj [(''Color?'', JStr ''blue'')]),
           askTimestamp = JStr ''t0'',
           answerTimestamp = JStr ''t3'',
           askLineIndex = 0,
           answerLineIndex = 3,
           toolUseId = JStr ''X'' \<rparr>]
   \<and> primitive (JStr ''Y'')
   \<and> requests_for (JStr ''Y'') out_of_order_log
        = [] @ [(1, out_of_order_log ! 1, ask_block ''Y'' ''Size?'')]
   \<and> responses_for (JStr ''Y'') out_of_order_log
        = [(2, out_of_order_log ! 2, result_block ''Y'' (quoted ''Size?'' @ ''='' @ quoted ''large''))]
   \<and> field (field (out_of_order_log ! 2) ''toolUseResult'') ''answers'' = JUndefined
   \<and> filter (\<lambda>p. toolUseId p = JStr ''Y'') (the (extractQAPairs out_of_order_log)) =
        [\<lparr> questions = JArr [question_obj ''Size?''],
           answers = Parsed [''Size?'' \<mapsto> ''large''],
           askTimestamp = JStr ''t1'',
           answerTimestamp = JStr ''t2'',
           askLineIndex = 1,
           answerLineIndex = 2,
           toolUseId = JStr ''Y'' \<rparr>]"
proof -
  have W: "list_all wf_record out_of_order_log" by code_simp
  then have W': "\<forall>e\<in>set out_of_order_log. wf_record e" by (simp add: list_all_iff)
  have PX: "primitive (JStr ''X'')" and PY: "primitive (JStr ''Y'')" by simp_all
  have RX1: "requests_for (JStr ''X'') out_of_order_log
        = [] @ [(0, out_of_order_log ! 0, ask_block ''X'' ''Color?'')]" by code_simp
  have RX2: "responses_for (JStr ''X'') out_of_order_log
        = [(3, out_of_order_log ! 3, result_block ''X'' ''ok'')]" by code_simp
  have RY1: "requests_for (JStr ''Y'') out_of_order_log
        = [] @ [(1, out_of_order_log ! 1, ask_block ''Y'' ''Size?'')]" by code_simp
  have RY2: "responses_for (JStr ''Y'') out_of_order_log
        = [(2, out_of_order_log ! 2, result_block ''Y'' (quoted ''Size?'' @ ''='' @ quoted ''large''))]"
    by code_simp
  have AX: "field (field (out_of_order_log ! 3) ''toolUseResult'') ''answers''
        = JObj [(''Color?'', JStr ''blue'')]" by code_simp
  have AY: "field (field (out_of_order_log ! 2) ''toolUseResult'') ''answers'' = JUndefined"
    by code_simp
  note TX = extractQAPairs_joins[of out_of_order_log "the (extractQAPairs out_of_order_log)"
      "JStr ''X''" "[]" 0 "out_of_order_log ! 0" "ask_block ''X'' ''Color?''"
      3 "out_of_order_log ! 3" "result_block ''X'' ''ok''"]
  note TY = extractQAPairs_joins[of out_of_order_log "the (extractQAPairs out_of_order_log)"
      "JStr ''Y''" "[]" 1 "out_of_order_log ! 1" "ask_block ''Y'' ''Size?''"
      2 "out_of_order_log ! 2" "result_block ''Y'' (quoted ''Size?'' @ ''='' @ quoted ''large'')"]
  from mp[OF conjunct1[OF TX] W'] have NN: "extractQAPairs out_of_order_log \<noteq> None" .
  then have S: "extractQAPairs out_of_order_log = Some (the (extractQAPairs out_of_order_log))"
    by simp
  from S PX RX1 RX2 have HX: "extractQAPairs out_of_order_log = Some (the (extractQAPairs out_of_order_log))
      \<and> primitive (JStr ''X'')
      \<and> requests_for (JStr ''X'') out_of_order_log
           = [] @ [(0, out_of_order_log ! 0, ask_block ''X'' ''Color?'')]
      \<and> responses_for (JStr ''X'') out_of_order_log
           = [(3, out_of_order_log ! 3, result_block ''X'' ''ok'')]"
    by (intro conjI)
  from S PY RY1 RY2 have HY: "extractQAPairs out_of_order_log = Some (the (extractQAPairs out_of_order_log))
      \<and> primitive (JStr ''Y'')
      \<and> requests_for (JStr ''Y'') out_of_order_log
           = [] @ [(1, out_of_order_log ! 1, ask_block ''Y'' ''Size?'')]
      \<and> responses_for (JStr ''Y'') out_of_order_log
           = [(2, out_of_order_log ! 2, result_block ''Y'' (quoted ''Size?'' @ ''='' @ quoted ''large''))]"
    by (intro conjI)
  have qX: "or_empty (field (field (ask_block ''X'' ''Color?'') ''input'') ''questions'')
             = JArr [question_obj ''Color?'']" by code_simp
  have qY: "or_empty (field (field (ask_block ''Y'' ''Size?'') ''input'') ''questions'')
             = JArr [question_obj ''Size?'']" by code_simp
  have cY: "field (result_block ''Y'' (quoted ''Size?'' @ ''='' @ quoted ''large'')) ''content''
             = JStr (quoted ''Size?'' @ ''='' @ quoted ''large'')"
    by (simp add: result_block_def)
  have t0: "field (out_of_order_log ! 0) ''timestamp'' = JStr ''t0''" by code_simp
  have t1: "field (out_of_order_log ! 1) ''timestamp'' = JStr ''t1''" by code_simp
  have t2: "field (out_of_order_log ! 2) ''timestamp'' = JStr ''t2''" by code_simp
  have t3: "field (out_of_order_log ! 3) ''timestamp'' = JStr ''t3''" by code_simp
  from mp[OF conjunct2[OF TX] HX] obtain ansX where
    FX: "filter (\<lambda>p. toolUseId p = JStr ''X'') (the (extractQAPairs out_of_order_log)) =
        [\<lparr> questions = or_empty (field (field (ask_block ''X'' ''Color?'') ''input'') ''questions''),
           answers = ansX,
           askTimestamp = field (out_of_order_log ! 0) ''timestamp'',
           answerTimestamp = field (out_of_order_log ! 3) ''timestamp'',
           askLineIndex = 0,
           answerLineIndex = 3,
           toolUseId = JStr ''X'' \<rparr>]"
    and aX: "if truthy (field (field (out_of_order_log ! 3) ''toolUseResult'') ''answers'')
             then ansX = Structured (field (field (out_of_order_log ! 3) ''toolUseResult'') ''answers'')
             else \<exists>m. parseAnswersFromContent (field (result_block ''X'' ''ok'') ''content'')
                         (or_empty (field (field (ask_block ''X'' ''Color?'') ''input'') ''questions'')) = Some m
                      \<and> ansX = Parsed m"
    by (elim conjE exE)
  from aX have aX': "ansX = Structured (JObj [(''Color?'', JStr ''blue'')])"
    by (simp add: AX)
  from mp[OF conjunct2[OF TY] HY] obtain ansY where
    FY: "filter (\<lambda>p. toolUseId p = JStr ''Y'') (the (extractQAPairs out_of_order_log)) =
        [\<lparr> questions = or_empty (field (field (ask_block ''Y'' ''Size?'') ''input'') ''questions''),
           answers = ansY,
           askTimestamp = field (out_of_order_log ! 1) ''timestamp'',
           answerTimestamp = field (out_of_order_log ! 2) ''timestamp'',
           askLineIndex = 1,
           answerLineIndex = 2,
           toolUseId = JStr ''Y'' \<rparr>]"
    and aY: "if truthy (field (field (out_of_order_log ! 2) ''toolUseResult'') ''answers'')
             then ansY = Structured (field (field (out_of_order_log ! 2) ''toolUseResult'') ''answers'')
             else \<exists>m. parseAnswersFromContent
                         (field (result_block ''Y'' (quoted ''Size?'' @ ''='' @ quoted ''large'')) ''content'')
                         (or_empty (field (field (ask_block ''Y'' ''Size?'') ''input'') ''questions'')) = Some m
                      \<and> ansY = Parsed m"
    by (elim conjE exE)
  from aY have "\<exists>m. parseAnswersFromContent (JStr (quoted ''Size?'' @ ''='' @ quoted ''large''))
                         (JArr [question_obj ''Size?'']) = Some m \<and> ansY = Parsed m"
    by (simp only: AY qY cY truthy.simps if_False)
  then have aY': "ansY = Parsed [''Size?'' \<mapsto> ''large'']"
    by (simp only: parse_size) simp
  from FX have GX: "filter (\<lambda>p. toolUseId p = JStr ''X'') (the (extractQAPairs out_of_order_log)) =
        [\<lparr> questions = JArr [question_obj ''Color?''],
           answers = Structured (JObj [(''Color?'', JStr ''blue'')]),
           askTimestamp = JStr ''t0'',
           answerTimestamp = JStr ''t3'',
           askLineIndex = 0,
           answerLineIndex = 3,
           toolUseId = JStr ''X'' \<rparr>]" by (simp only: aX' qX t0 t3)
  from FY have GY: "filter (\<lambda>p. toolUseId p = JStr ''Y'') (the (extractQAPairs out_of_order_log)) =
        [\<lparr> questions = JArr [question_obj ''Size?''],
           answers = Parsed [''Size?'' \<mapsto> ''large''],
           askTimestamp = JStr ''t1'',
           answerTimestamp = JStr ''t2'',
           askLineIndex = 1,
           answerLineIndex = 2,
           toolUseId = JStr ''Y'' \<rparr>]" by (simp only: aY' qY t1 t2)
  from W NN PX RX1 RX2 AX GX PY RY1 RY2 AY GY show ?thesis by (intro conjI)
qed

lemma out_of_order_ask: "map_option (map askLineIndex) (extractQAPairs out_of_order_log) = Some [1, 0]"
  by code_simp

lemma out_of_order_answer: "map_option (map answerLineIndex) (extractQAPairs out_of_order_log) = Some [2, 3]"
  by code_simp

text \<open>
  Claim C6.  The pairs that the Correlator returns are ordered by the position of their
  response records: the list of their \<open>answerLineIndex\<close> is non-decreasing (two response
  blocks of one record share the position).  The order is not that of the requests: on
  the log with two questions answered in the opposite order the requests' positions come
  out as 1, 0 and the responses' as 2, 3.
\<close>

theorem extractQAPairs_ordered_by_response:
  "(extractQAPairs parsedLines = Some pairs \<longrightarrow> sorted (map answerLineIndex pairs))
   \<and> map_option (map askLineIndex) (extractQAPairs out_of_order_log) = Some [1, 0]
   \<and> map_option (map answerLineIndex) (extractQAPairs out_of_order_log) = Some [2, 3]"
  using sorted_answerLineIndex out_of_order_ask out_of_order_answer by blast

text \<open>C6 on the log with two questions answered in the opposite order.\<close>

theorem extractQAPairs_ordered_by_response_witness:
  "\<exists>pairs. extractQAPairs out_of_order_log = Some pairs
           \<and> map answerLineIndex pairs = [2, 3]
           \<and> sorted (map answerLineIndex pairs)"
proof -
  from out_of_order_answer obtain pairs where p: "extractQAPairs out_of_order_log = Some pairs"
    "map answerLineIndex pairs = [2, 3]" by auto
  from extractQAPairs_ordered_by_response[of out_of_order_log pairs] p(1)
  have "sorted (map answerLineIndex pairs)" by blast
  with p show ?thesis by (intro exI[of _ pairs] conjI)
qed

lemma no_timestamp_pairs:
  "map_option (map askLineIndex) (extractQAPairs no_timestamp_log) = Some [0]
   \<and> map_option (map answerLineIndex) (extractQAPairs no_timestamp_log) = Some [1]
   \<and> map_option (map askTimestamp) (extractQAPairs no_timestamp_log) = Some [JUndefined]
   \<and> map_option (map answerTimestamp) (extractQAPairs no_timestamp_log) = Some [JUndefined]
   \<and> field (no_timestamp_log ! 0) ''timestamp'' = JUndefined
   \<and> field (no_timestamp_log ! 1) ''timestamp'' = JUndefined"
  by code_simp


section \<open>The Correlator: responses that are skipped\<close>

lemma index_entries_append:
  "index_entries i (xs @ ys) m = index_entries i xs m \<bind> index_entries (i + length xs) ys"
  by (induction xs arbitrary: i m) (auto split: Option.bind_splits)

lemma match_blocks_append:
  "match_blocks m i e (xs @ ys) acc = match_blocks m i e xs acc \<bind> match_blocks m i e ys"
  by (induction xs arbitrary: acc) (auto split: Option.bind_splits)

lemma match_entries_append:
  "match_entries m i (xs @ ys) acc = match_entries m i xs acc \<bind> match_entries m (i + length xs) ys"
  by (induction xs arbitrary: i acc) (auto split: Option.bind_splits)

lemma field_JStr_not_nullish: "field e f = JStr s \<Longrightarrow> \<not> nullish e"
  by (cases e) auto

lemma index_entry_user: "field e ''type'' = JStr ''user'' \<Longrightarrow> index_entry i e m = Some m"
  by (frule field_JStr_not_nullish) (simp add: index_entry_def getp_def)

lemma match_block_entry_cong:
  assumes "field e' ''timestamp'' = field e ''timestamp''"
    and "field e' ''toolUseResult'' = field e ''toolUseResult''"
  shows "match_block m i e' b acc = match_block m i e b acc"
proof -
  have R: "resolve_answers e' b = resolve_answers e b"
    by (rule ext) (simp add: resolve_answers_def assms)
  have M: "make_pair i e' = make_pair i e"
    by (intro ext) (simp add: make_pair_def assms)
  show ?thesis unfolding match_block_def R M ..
qed

lemma match_blocks_entry_cong:
  assumes "field e' ''timestamp'' = field e ''timestamp''"
    and "field e' ''toolUseResult'' = field e ''toolUseResult''"
  shows "match_blocks m i e' bs = match_blocks m i e bs"
proof (induction bs)
  case Nil
  show ?case by (rule ext) simp
next
  case (Cons b bs)
  show ?case by (rule ext) (simp add: match_block_entry_cong[OF assms] Cons.IH)
qed

lemma match_block_skipped:
  assumes "is_response b" "m (field b ''tool_use_id'') = None \<or> truthy (field b ''is_error'')"
  shows "match_block m i e b acc = Some acc"
proof -
  from assms(1) have "\<not> nullish b" unfolding is_response_def by (rule field_JStr_not_nullish)
  with assms show ?thesis
    by (auto simp: match_block_def getp_def is_response_def split: option.splits)
qed

text \<open>
  Claim C2.  Let a user record \<open>e\<close> contain a response block \<open>b\<close> whose id no request of
  the log registered, or which is flagged as an error, and let \<open>e'\<close> be the same record
  without that block.  The Correlator gives the same result on the log with \<open>e\<close> as on
  the log with \<open>e'\<close>: the block adds no pair, and it makes the Correlator throw in no
  case where it would not throw without the block.
\<close>

theorem unmatched_or_error_response_skipped:
  assumes "field e ''type'' = JStr ''user''"
    and "field (field e ''message'') ''content'' = JArr (bs1 @ b # bs2)"
    and "field e' ''type'' = JStr ''user''"
    and "field (field e' ''message'') ''content'' = JArr (bs1 @ bs2)"
    and "field e' ''timestamp'' = field e ''timestamp''"
    and "field e' ''toolUseResult'' = field e ''toolUseResult''"
    and "is_response b"
    and "requests_for (field b ''tool_use_id'') (es1 @ e # es2) = [] \<or> truthy (field b ''is_error'')"
  shows "extractQAPairs (es1 @ e # es2) = extractQAPairs (es1 @ e' # es2)"
proof -
  have ne: "\<not> nullish e" "\<not> nullish e'"
    using assms(1,3) by (auto dest: field_JStr_not_nullish)
  have "index_entries (length es1) (e' # es2) = index_entries (length es1) (e # es2)"
    by (rule ext) (simp add: index_entry_user[OF assms(1)] index_entry_user[OF assms(3)])
  then have P1: "index_entries 0 (es1 @ e' # es2) Map.empty = index_entries 0 (es1 @ e # es2) Map.empty"
    by (simp add: index_entries_append)
  show ?thesis
  proof (cases "index_entries 0 (es1 @ e # es2) Map.empty")
    case None
    then show ?thesis using P1 by (simp add: extractQAPairs_def)
  next
    case (Some m)
    have skip: "m (field b ''tool_use_id'') = None \<or> truthy (field b ''is_error'')"
      using assms(8) index_entries_Some[OF Some, of "field b ''tool_use_id''"]
      by (auto simp: requests_for_def Let_def)
    have E: "\<And>acc. match_entry m (length es1) e acc = match_entry m (length es1) e' acc"
    proof -
      fix acc
      have skipb: "match_blocks m (length es1) e (b # bs2) = match_blocks m (length es1) e bs2"
        using match_block_skipped[of b m, OF assms(7) skip] by (intro ext) simp
      have "match_entry m (length es1) e acc = match_blocks m (length es1) e (bs1 @ b # bs2) acc"
        using assms(1,2) ne by (simp add: match_entry_def getp_def)
      also have "\<dots> = match_blocks m (length es1) e bs1 acc \<bind>
            match_blocks m (length es1) e (b # bs2)"
        by (simp add: match_blocks_append)
      also have "\<dots> = match_blocks m (length es1) e bs1 acc \<bind> match_blocks m (length es1) e bs2"
        by (simp only: skipb)
      also have "\<dots> = match_blocks m (length es1) e (bs1 @ bs2) acc"
        by (simp add: match_blocks_append)
      also have "\<dots> = match_blocks m (length es1) e' (bs1 @ bs2) acc"
        by (simp add: match_blocks_entry_cong[OF assms(5,6)])
      also have "\<dots> = match_entry m (length es1) e' acc"
        using assms(3,4) ne by (simp add: match_entry_def getp_def)
      finally show "match_entry m (length es1) e acc = match_entry m (length es1) e' acc" .
    qed
    have "match_entries m (length es1) (e # es2) = match_entries m (length es1) (e' # es2)"
      by (rule ext) (simp add: E)
    then have "match_entries m 0 (es1 @ e # es2) [] = match_entries m 0 (es1 @ e' # es2) []"
      by (simp add: match_entries_append)
    then show ?thesis using Some P1 by (simp add: extractQAPairs_def)
  qed
qed

text \<open>
  C2 on a question followed by a response with the unknown id \<open>Z\<close>, and on the same
  question followed by a response with its id \<open>X\<close> that is flagged as an error: in both
  cases the result is that of the log in which the user record has no block, no pair.
\<close>

theorem unmatched_or_error_response_skipped_witness:
  "field orphan_record ''type'' = JStr ''user''
   \<and> field (field orphan_record ''message'') ''content'' = JArr ([] @ result_block ''Z'' ''done'' # [])
   \<and> field empty_record ''type'' = JStr ''user''
   \<and> field (field empty_record ''message'') ''content'' = JArr ([] @ [])
   \<and> field empty_record ''timestamp'' = field orphan_record ''timestamp''
   \<and> field empty_record ''toolUseResult'' = field orphan_record ''toolUseResult''
   \<and> is_response (result_block ''Z'' ''done'')
   \<and> requests_for (field (result_block ''Z'' ''done'') ''tool_use_id'')
        ([asking_record] @ orphan_record # []) = []
   \<and> extractQAPairs ([asking_record] @ orphan_record # [])
        = extractQAPairs ([asking_record] @ empty_record # [])
   \<and> field error_record ''type'' = JStr ''user''
   \<and> field (field error_record ''message'') ''content'' = JArr ([] @ error_block # [])
   \<and> field empty_record ''timestamp'' = field error_record ''timestamp''
   \<and> field empty_record ''toolUseResult'' = field error_record ''toolUseResult''
   \<and> is_response error_block
   \<and> truthy (field error_block ''is_error'')
   \<and> length (requests_for (field error_block ''tool_use_id'') ([asking_record] @ error_record # [])) = 1
   \<and> extractQAPairs ([asking_record] @ error_record # [])
        = extractQAPairs ([asking_record] @ empty_record # [])
   \<and> map_option length (extractQAPairs ([asking_record] @ empty_record # [])) = Some 0"
proof -
  have h1: "field orphan_record ''type'' = JStr ''user''" by code_simp
  have h2: "field (field orphan_record ''message'') ''content'' = JArr ([] @ result_block ''Z'' ''done'' # [])"
    by code_simp
  have h3: "field empty_record ''type'' = JStr ''user''" by code_simp
  have h4: "field (field empty_record ''message'') ''content'' = JArr ([] @ [])" by code_simp
  have h5: "field empty_record ''timestamp'' = field orphan_record ''timestamp''" by code_simp
  have h6: "field empty_record ''toolUseResult'' = field orphan_record ''toolUseResult''" by code_simp
  have h7: "is_response (result_block ''Z'' ''done'')" by code_simp
  have h8: "requests_for (field (result_block ''Z'' ''done'') ''tool_use_id'')
        ([asking_record] @ orphan_record # []) = []" by code_simp
  have c: "extractQAPairs ([asking_record] @ orphan_record # [])
        = extractQAPairs ([asking_record] @ empty_record # [])"
    by (rule unmatched_or_error_response_skipped[OF h1 h2 h3 h4 h5 h6 h7 disjI1[OF h8]])
  have g1: "field error_record ''type'' = JStr ''user''" by code_simp
  have g2: "field (field error_record ''message'') ''content'' = JArr ([] @ error_block # [])"
    by code_simp
  have g5: "field empty_record ''timestamp'' = field error_record ''timestamp''" by code_simp
  have g6: "field empty_record ''toolUseResult'' = field error_record ''toolUseResult''" by code_simp
  have g7: "is_response error_block" by code_simp
  have g8: "truthy (field error_block ''is_error'')" by code_simp
  have g9: "length (requests_for (field error_block ''tool_use_id'') ([asking_record] @ error_record # [])) = 1"
    by code_simp
  have d: "extractQAPairs ([asking_record] @ error_record # [])
        = extractQAPairs ([asking_record] @ empty_record # [])"
    by (rule unmatched_or_error_response_skipped[OF g1 g2 h3 h4 g5 g6 g7 disjI2[OF g8]])
  have v: "map_option length (extractQAPairs ([asking_record] @ empty_record # [])) = Some 0"
    by code_simp
  from h1 h2 h3 h4 h5 h6 h7 h8 c g1 g2 g5 g6 g7 g8 g9 d v show ?thesis by (intro conjI)
qed

section \<open>The Timeline Builder\<close>

lemma assistant_block_Some:
  assumes "assistant_block st i e b acc = Some acc'"
  shows "\<exists>new. acc' = acc @ new \<and>
           (\<forall>x\<in>set new. entry_lineIndex x = i \<and> entry_timestamp x = field e ''timestamp'')"
  using assms
  by (auto simp: assistant_block_def split: Option.bind_splits if_splits)

lemma assistant_blocks_Some:
  assumes "assistant_blocks st i e bs acc = Some acc'"
  shows "\<exists>new. acc' = acc @ new \<and>
           (\<forall>x\<in>set new. entry_lineIndex x = i \<and> entry_timestamp x = field e ''timestamp'')"
  using assms
proof (induction bs arbitrary: acc)
  case Nil
  then show ?case by simp
next
  case (Cons b bs)
  then obtain t1 where s1: "assistant_block st i e b acc = Some t1"
    and s2: "assistant_blocks st i e bs t1 = Some acc'" by (auto split: Option.bind_splits)
  from assistant_block_Some[OF s1] obtain n1 where n1: "t1 = acc @ n1"
    "\<forall>x\<in>set n1. entry_lineIndex x = i \<and> entry_timestamp x = field e ''timestamp''" by blast
  from Cons.IH[OF s2] obtain n2 where n2: "acc' = t1 @ n2"
    "\<forall>x\<in>set n2. entry_lineIndex x = i \<and> entry_timestamp x = field e ''timestamp''" by blast
  from n1 n2 show ?case by (intro exI[of _ "n1 @ n2"]) auto
qed

lemma user_block_Some:
  assumes "user_block i e b acc = Some acc'"
  shows "\<exists>new. acc' = acc @ new \<and>
           (\<forall>x\<in>set new. entry_lineIndex x = i \<and> entry_timestamp x = field e ''timestamp'')"
  using assms
  by (auto simp: user_block_def split: Option.bind_splits if_splits)

lemma user_blocks_Some:
  assumes "user_blocks i e bs acc = Some acc'"
  shows "\<exists>new. acc' = acc @ new \<and>
           (\<forall>x\<in>set new. entry_lineIndex x = i \<and> entry_timestamp x = field e ''timestamp'')"
  using assms
proof (induction bs arbitrary: acc)
  case Nil
  then show ?case by simp
next
  case (Cons b bs)
  then obtain t1 where s1: "user_block i e b acc = Some t1"
    and s2: "user_blocks i e bs t1 = Some acc'" by (auto split: Option.bind_splits)
  from user_block_Some[OF s1] obtain n1 where n1: "t1 = acc @ n1"
    "\<forall>x\<in>set n1. entry_lineIndex x = i \<and> entry_timestamp x = field e ''timestamp''" by blast
  from Cons.IH[OF s2] obtain n2 where n2: "acc' = t1 @ n2"
    "\<forall>x\<in>set n2. entry_lineIndex x = i \<and> entry_timestamp x = field e ''timestamp''" by blast
  from n1 n2 show ?case by (intro exI[of _ "n1 @ n2"]) auto
qed

lemma timeline_record_Some:
  assumes "timeline_record st i e acc = Some acc'"
  shows "\<exists>new. acc' = acc @ new \<and>
           (\<forall>x\<in>set new. entry_lineIndex x = i \<and> entry_timestamp x = field e ''timestamp''
                          \<and> truthy (field e ''timestamp''))"
proof (cases "truthy (field e ''timestamp'')")
  case False
  with assms have "acc' = acc" by (auto simp: timeline_record_def split: Option.bind_splits)
  then show ?thesis by simp
next
  case True
  have "\<exists>new. acc' = acc @ new \<and>
           (\<forall>x\<in>set new. entry_lineIndex x = i \<and> entry_timestamp x = field e ''timestamp'')"
    using assms assistant_blocks_Some[of st i e _ acc acc'] user_blocks_Some[of i e _ acc acc']
    by (auto simp: timeline_record_def Let_def stripTags_def
             split: Option.bind_splits if_splits jsval.splits)
  with True show ?thesis by auto
qed

lemma timeline_records_Some:
  assumes "timeline_records st i es acc = Some acc'"
  shows "\<exists>new. acc' = acc @ new \<and>
           (\<forall>x\<in>set new. i \<le> entry_lineIndex x \<and> entry_lineIndex x - i < length es
              \<and> truthy (field (es ! (entry_lineIndex x - i)) ''timestamp'')
              \<and> entry_timestamp x = field (es ! (entry_lineIndex x - i)) ''timestamp'')"
  using assms
proof (induction es arbitrary: i acc)
  case Nil
  then show ?case by simp
next
  case (Cons e es)
  then obtain t1 where s1: "timeline_record st i e acc = Some t1"
    and s2: "timeline_records st (Suc i) es t1 = Some acc'" by (auto split: Option.bind_splits)
  from timeline_record_Some[OF s1] obtain n1 where n1: "t1 = acc @ n1"
    "\<forall>x\<in>set n1. entry_lineIndex x = i \<and> entry_timestamp x = field e ''timestamp''
        \<and> truthy (field e ''timestamp'')" by blast
  from Cons.IH[OF s2] obtain n2 where n2: "acc' = t1 @ n2"
    "\<forall>x\<in>set n2. Suc i \<le> entry_lineIndex x \<and> entry_lineIndex x - Suc i < length es
              \<and> truthy (field (es ! (entry_lineIndex x - Suc i)) ''timestamp'')
              \<and> entry_timestamp x = field (es ! (entry_lineIndex x - Suc i)) ''timestamp''" by blast
  have "\<forall>x\<in>set (n1 @ n2). i \<le> entry_lineIndex x \<and> entry_lineIndex x - i < length (e # es)
              \<and> truthy (field ((e # es) ! (entry_lineIndex x - i)) ''timestamp'')
              \<and> entry_timestamp x = field ((e # es) ! (entry_lineIndex x - i)) ''timestamp''"
  proof
    fix x assume "x \<in> set (n1 @ n2)"
    then consider "x \<in> set n1" | "x \<in> set n2" by auto
    then show "i \<le> entry_lineIndex x \<and> entry_lineIndex x - i < length (e # es)
              \<and> truthy (field ((e # es) ! (entry_lineIndex x - i)) ''timestamp'')
              \<and> entry_timestamp x = field ((e # es) ! (entry_lineIndex x - i)) ''timestamp''"
    proof cases
      case 1
      with n1(2) show ?thesis by auto
    next
      case 2
      with n2(2) have x: "Suc i \<le> entry_lineIndex x" "entry_lineIndex x - Suc i < length es"
        "truthy (field (es ! (entry_lineIndex x - Suc i)) ''timestamp'')"
        "entry_timestamp x = field (es ! (entry_lineIndex x - Suc i)) ''timestamp''" by auto
      from x(1) have "entry_lineIndex x - i = Suc (entry_lineIndex x - Suc i)" by simp
      with x show ?thesis by simp
    qed
  qed
  with n1(1) n2(1) show ?case by (intro exI[of _ "n1 @ n2"]) simp
qed

lemma timeline_records_append:
  "timeline_records st i (xs @ ys) acc
     = timeline_records st i xs acc \<bind> timeline_records st (i + length xs) ys"
  by (induction xs arbitrary: i acc) (auto split: Option.bind_splits)

lemma timeline_record_no_timestamp:
  assumes "\<not> nullish e" "\<not> truthy (field e ''timestamp'')"
  shows "timeline_record st i e acc = Some acc"
  using assms by (simp add: timeline_record_def getp_def)


text \<open>
  Claim C4, as amended.  Every entry of the timeline comes from a record with a truthy
  timestamp, and carries that timestamp.  A record without a timestamp (that is not
  \<open>null\<close> itself) is skipped by the Timeline Builder exactly like the empty object: it adds
  no entry and it does not make the builder throw.  The Correlator does not throw on
  well-formed records, and being well formed asks nothing of the timestamp.  It does not
  look at timestamps at all: on the log \<open>no_timestamp_log\<close> it returns one pair, whose
  request record and response record both carry no timestamp.
\<close>

theorem timestamp_less_records:
  "(buildSessionTimeline stringify parsedLines = Some entries \<longrightarrow>
      (\<forall>x\<in>set entries.
          entry_lineIndex x < length parsedLines
          \<and> truthy (field (parsedLines ! entry_lineIndex x) ''timestamp'')
          \<and> entry_timestamp x = field (parsedLines ! entry_lineIndex x) ''timestamp''))
   \<and> (\<not> nullish e \<and> \<not> truthy (field e ''timestamp'') \<longrightarrow>
        buildSessionTimeline stringify (es1 @ e # es2)
          = buildSessionTimeline stringify (es1 @ JObj [] # es2))
   \<and> ((\<forall>r\<in>set parsedLines. wf_record r) \<longrightarrow> extractQAPairs parsedLines \<noteq> None)
   \<and> map_option (map askLineIndex) (extractQAPairs no_timestamp_log) = Some [0]
   \<and> map_option (map answerLineIndex) (extractQAPairs no_timestamp_log) = Some [1]
   \<and> field (no_timestamp_log ! 0) ''timestamp'' = JUndefined
   \<and> field (no_timestamp_log ! 1) ''timestamp'' = JUndefined"
proof -
  have A: "buildSessionTimeline stringify parsedLines = Some entries \<longrightarrow>
      (\<forall>x\<in>set entries.
          entry_lineIndex x < length parsedLines
          \<and> truthy (field (parsedLines ! entry_lineIndex x) ''timestamp'')
          \<and> entry_timestamp x = field (parsedLines ! entry_lineIndex x) ''timestamp'')"
  proof
    assume "buildSessionTimeline stringify parsedLines = Some entries"
    then have "timeline_records stringify 0 parsedLines [] = Some entries"
      by (simp add: buildSessionTimeline_def)
    from timeline_records_Some[OF this]
    show "\<forall>x\<in>set entries.
          entry_lineIndex x < length parsedLines
          \<and> truthy (field (parsedLines ! entry_lineIndex x) ''timestamp'')
          \<and> entry_timestamp x = field (parsedLines ! entry_lineIndex x) ''timestamp''" by auto
  qed
  have B: "\<not> nullish e \<and> \<not> truthy (field e ''timestamp'') \<longrightarrow>
        buildSessionTimeline stringify (es1 @ e # es2)
          = buildSessionTimeline stringify (es1 @ JObj [] # es2)"
  proof
    assume "\<not> nullish e \<and> \<not> truthy (field e ''timestamp'')"
    then have "\<And>acc. timeline_record stringify (length es1) e acc = Some acc"
      by (simp add: timeline_record_no_timestamp)
    moreover have "\<And>acc. timeline_record stringify (length es1) (JObj []) acc = Some acc"
      by (simp add: timeline_record_no_timestamp)
    ultimately have "timeline_records stringify (length es1) (e # es2)
        = timeline_records stringify (length es1) (JObj [] # es2)"
      by (intro ext) simp
    then show "buildSessionTimeline stringify (es1 @ e # es2)
          = buildSessionTimeline stringify (es1 @ JObj [] # es2)"
      by (simp add: buildSessionTimeline_def timeline_records_append)
  qed
  have C: "(\<forall>r\<in>set parsedLines. wf_record r) \<longrightarrow> extractQAPairs parsedLines \<noteq> None"
    using extractQAPairs_total by blast
  from A B C no_timestamp_pairs show ?thesis by (intro conjI) blast+
qed

text \<open>
  C4 as amended, on a log of three records of which the second has no timestamp: the
  timeline has one entry, from the third record.
\<close>

theorem timestamp_less_records_witness:
  "buildSessionTimeline sample_stringify
      ([hd today_log] @ record_of ''assistant'' (JArr [text_block ''No time'']) [] # today_log)
     = Some [assistant_text (JStr ''t0'') ''Today is fine'' 0,
             assistant_text (JStr ''t0'') ''Today is fine'' 2]
   \<and> \<not> nullish (record_of ''assistant'' (JArr [text_block ''No time'']) [])
   \<and> \<not> truthy (field (record_of ''assistant'' (JArr [text_block ''No time'']) []) ''timestamp'')
   \<and> buildSessionTimeline sample_stringify
        ([hd today_log] @ record_of ''assistant'' (JArr [text_block ''No time'']) [] # today_log)
       = buildSessionTimeline sample_stringify ([hd today_log] @ JObj [] # today_log)
   \<and> list_all wf_record no_timestamp_log
   \<and> extractQAPairs no_timestamp_log \<noteq> None
   \<and> truthy (field (today_log ! 0) ''timestamp'')"
proof -
  define L where "L = [hd today_log] @ record_of ''assistant'' (JArr [text_block ''No time'']) [] # today_log"
  have E: "buildSessionTimeline sample_stringify L
     = Some [assistant_text (JStr ''t0'') ''Today is fine'' 0,
             assistant_text (JStr ''t0'') ''Today is fine'' 2]"
    unfolding L_def by code_simp
  have h1: "\<not> nullish (record_of ''assistant'' (JArr [text_block ''No time'']) [])" by code_simp
  have h2: "\<not> truthy (field (record_of ''assistant'' (JArr [text_block ''No time'']) []) ''timestamp'')"
    by code_simp
  have W: "list_all wf_record no_timestamp_log" by code_simp
  then have W': "\<forall>r\<in>set no_timestamp_log. wf_record r" by (simp add: list_all_iff)
  note T = timestamp_less_records[of sample_stringify L
      "[assistant_text (JStr ''t0'') ''Today is fine'' 0, assistant_text (JStr ''t0'') ''Today is fine'' 2]"
      "record_of ''assistant'' (JArr [text_block ''No time'']) []" "[hd today_log]" today_log]
  from T E have "\<forall>x\<in>set [assistant_text (JStr ''t0'') ''Today is fine'' 0,
                             assistant_text (JStr ''t0'') ''Today is fine'' 2].
          entry_lineIndex x < length L
          \<and> truthy (field (L ! entry_lineIndex x) ''timestamp'')
          \<and> entry_timestamp x = field (L ! entry_lineIndex x) ''timestamp''" by blast
  then have "truthy (field (L ! 0) ''timestamp'')" by simp
  then have c1: "truthy (field (today_log ! 0) ''timestamp'')" by (simp add: L_def today_log_def)
  from T h1 h2 have c2: "buildSessionTimeline sample_stringify
        ([hd today_log] @ record_of ''assistant'' (JArr [text_block ''No time'']) [] # today_log)
       = buildSessionTimeline sample_stringify ([hd today_log] @ JObj [] # today_log)" by blast
  from timestamp_less_records[of _ no_timestamp_log] W'
  have c3: "extractQAPairs no_timestamp_log \<noteq> None" by blast
  from E[unfolded L_def] h1 h2 c2 W c3 c1 show ?thesis by (intro conjI)
qed

text \<open>
  The claim C4 as it is stated fails: on the log \<open>no_timestamp_log\<close> the Correlator emits a
  pair whose request record (position 0) and response record (position 1) carry no
  timestamp.
\<close>

theorem timestamp_less_pair_counterexample:
  "map_option (map askLineIndex) (extractQAPairs no_timestamp_log) = Some [0]
   \<and> map_option (map answerLineIndex) (extractQAPairs no_timestamp_log) = Some [1]
   \<and> map_option (map askTimestamp) (extractQAPairs no_timestamp_log) = Some [JUndefined]
   \<and> map_option (map answerTimestamp) (extractQAPairs no_timestamp_log) = Some [JUndefined]
   \<and> field (no_timestamp_log ! 0) ''timestamp'' = JUndefined
   \<and> field (no_timestamp_log ! 1) ''timestamp'' = JUndefined"
  by (rule no_timestamp_pairs)

text \<open>
  Claim C5 fails on the code.  The record of \<open>generic_result_log\<close> holds the result of a
  shell command: its id \<open>bash_1\<close> belongs to no question (no request is registered under
  it and the Correlator returns no pair), yet the Timeline Builder emits a
  \<open>user_answer\<close> entry for the block, because the record carries a \<open>toolUseResult\<close>.
\<close>

theorem generic_tool_result_emitted:
  "buildSessionTimeline stringify generic_result_log
     = Some [user_answer (JStr ''t0'') (JStr ''bash_1'') (JObj []) 0]
   \<and> requests_for (JStr ''bash_1'') generic_result_log = []
   \<and> map_option length (extractQAPairs generic_result_log) = Some 0"
proof -
  have "buildSessionTimeline stringify generic_result_log
     = Some [user_answer (JStr ''t0'') (JStr ''bash_1'') (JObj []) 0]"
    by (simp add: buildSessionTimeline_def generic_result_log_def record_of_def result_block_def
          timeline_record_def getp_def user_block_def)
  moreover have "requests_for (JStr ''bash_1'') generic_result_log = []" by code_simp
  moreover have "map_option length (extractQAPairs generic_result_log) = Some 0" by code_simp
  ultimately show ?thesis by (intro conjI)
qed


section \<open>The Timeline Builder: tool calls\<close>

lemma summarizeToolInput_priority:
  assumes "\<not> nullish block"
  shows "summarizeToolInput stringify block =
        (let input = field block ''input'' in
         if \<not> truthy input then Some (JStr [])
         else (case find (\<lambda>f. truthy (field input f)) priority_fields of
                 Some f \<Rightarrow> summary_of f (field input f)
               | None \<Rightarrow> Some (JStr (take 120 (stringify input)))))"
  using assms
  by (simp add: summarizeToolInput_def getp_def Let_def priority_fields_def summary_of_def
        truncated_fields_def)

lemma slice120_length: "slice120 v = Some (JStr t) \<Longrightarrow> length t \<le> 120"
  by (cases v) (auto simp: slice120_def)

lemma summarizeToolInput_truncated:
  assumes "summarizeToolInput stringify block = Some (JStr t)"
    and "find (\<lambda>f. truthy (field (field block ''input'') f)) priority_fields
           \<notin> {Some ''file_path'', Some ''pattern'', Some ''url''}"
  shows "length t \<le> 120"
proof -
  from assms(1) have nn: "\<not> nullish block"
    by (auto simp: summarizeToolInput_def getp_def split: if_splits)
  define input where "input = field block ''input''"
  show ?thesis
  proof (cases "truthy input")
    case False
    with assms(1) nn show ?thesis by (simp add: summarizeToolInput_priority input_def)
  next
    case True
    show ?thesis
    proof (cases "find (\<lambda>f. truthy (field input f)) priority_fields")
      case None
      with assms(1) nn True show ?thesis
        by (auto simp: summarizeToolInput_priority input_def[symmetric])
    next
      case (Some f)
      then have "f \<in> set priority_fields" by (auto simp: find_Some_iff)
      with assms(2) Some have "f \<in> set truncated_fields"
        by (auto simp: priority_fields_def truncated_fields_def input_def)
      moreover from assms(1) nn True Some have "summary_of f (field input f) = Some (JStr t)"
        by (simp add: summarizeToolInput_priority input_def[symmetric])
      ultimately have "slice120 (field input f) = Some (JStr t)" by (simp add: summary_of_def)
      then show ?thesis by (rule slice120_length)
    qed
  qed
qed

lemma falsy_field: "\<not> truthy v \<Longrightarrow> field v f = JUndefined"
  by (cases v) auto

lemma getp_Some: "getp v f = Some x \<longleftrightarrow> \<not> nullish v \<and> x = field v f"
  by (auto simp: getp_def)

lemma assistant_block_tool_calls:
  assumes "assistant_block st i e b acc = Some r"
  shows "map Some (filter is_tool_call r) =
           map Some (filter is_tool_call acc) @
           (if tool_call_block b
            then [map_option (\<lambda>snippet. tool_use (field e ''timestamp'') (field b ''name'') snippet i)
                    (summarizeToolInput st b)]
            else [])"
  using assms
  by (auto simp: assistant_block_def tool_call_block_def getp_Some
           split: Option.bind_splits if_splits)

lemma assistant_blocks_tool_calls:
  assumes "assistant_blocks st i e bs acc = Some r"
  shows "map Some (filter is_tool_call r) =
           map Some (filter is_tool_call acc) @
           map (\<lambda>b. map_option (\<lambda>snippet. tool_use (field e ''timestamp'') (field b ''name'') snippet i)
                      (summarizeToolInput st b))
             (filter tool_call_block bs)"
  using assms
proof (induction bs arbitrary: acc)
  case Nil
  then show ?case by simp
next
  case (Cons b bs)
  then obtain t1 where s1: "assistant_block st i e b acc = Some t1"
    and s2: "assistant_blocks st i e bs t1 = Some r" by (auto split: Option.bind_splits)
  from Cons.IH[OF s2] assistant_block_tool_calls[OF s1] show ?case by simp
qed

lemma user_block_tool_calls:
  assumes "user_block i e b acc = Some r"
  shows "filter is_tool_call r = filter is_tool_call acc"
  using assms by (auto simp: user_block_def split: Option.bind_splits if_splits)

lemma user_blocks_tool_calls:
  assumes "user_blocks i e bs acc = Some r"
  shows "filter is_tool_call r = filter is_tool_call acc"
  using assms
proof (induction bs arbitrary: acc)
  case Nil
  then show ?case by simp
next
  case (Cons b bs)
  then obtain t1 where s1: "user_block i e b acc = Some t1"
    and s2: "user_blocks i e bs t1 = Some r" by (auto split: Option.bind_splits)
  from Cons.IH[OF s2] user_block_tool_calls[OF s1] show ?case by simp
qed

lemma timeline_record_tool_calls:
  assumes "timeline_record st i e acc = Some r"
  shows "map Some (filter is_tool_call r) = map Some (filter is_tool_call acc) @ tool_calls_of st i e"
proof -
  from assms have nn: "\<not> nullish e" by (auto simp: timeline_record_def getp_Some split: Option.bind_splits)
  show ?thesis
  proof (cases "truthy (field e ''message'') \<and> truthy (field e ''timestamp'')")
    case False
    with assms nn have r: "r = acc" by (auto simp: timeline_record_def getp_def)
    have "tool_calls_of st i e = []"
    proof (cases "truthy (field e ''timestamp'')")
      case True
      with False have "field (field e ''message'') ''content'' = JUndefined" by (simp add: falsy_field)
      then have "blocks_of ''assistant'' e = []" by (simp add: blocks_of_def)
      then show ?thesis by (simp add: tool_calls_of_def)
    next
      case False
      then show ?thesis by (simp add: tool_calls_of_def)
    qed
    with r show ?thesis by simp
  next
    case True
    then have ts: "truthy (field e ''timestamp'')" and ms: "truthy (field e ''message'')" by simp_all
    show ?thesis
    proof (cases "field e ''type'' = JStr ''assistant''")
      case A: True
      show ?thesis
      proof (cases "field (field e ''message'') ''content''")
        case (JArr bs)
        with assms nn ts ms A have "assistant_blocks st i e bs acc = Some r"
          by (simp add: timeline_record_def getp_def Let_def)
        from assistant_blocks_tool_calls[OF this] show ?thesis
          using A JArr ts by (simp add: tool_calls_of_def blocks_of_def)
      qed (use assms nn ts ms A in \<open>simp_all add: timeline_record_def getp_def Let_def tool_calls_of_def blocks_of_def\<close>)
    next
      case NA: False
      then have tc: "tool_calls_of st i e = []" by (simp add: tool_calls_of_def blocks_of_def)
      have "filter is_tool_call r = filter is_tool_call acc"
      proof (cases "field e ''type'' = JStr ''user''")
        case U: True
        show ?thesis
        proof (cases "field (field e ''message'') ''content''")
          case (JArr bs)
          with assms nn ts ms U have "user_blocks i e bs acc = Some r"
            by (simp add: timeline_record_def getp_def Let_def)
          then show ?thesis by (rule user_blocks_tool_calls)
        next
          case (JStr s)
          with assms nn ts ms U show ?thesis
            by (auto simp: timeline_record_def getp_def Let_def split: Option.bind_splits if_splits)
        qed (use assms nn ts ms U in \<open>simp_all add: timeline_record_def getp_def Let_def\<close>)
      next
        case False
        with assms nn ts ms NA show ?thesis
          by (auto simp: timeline_record_def getp_def Let_def split: if_splits)
      qed
      with tc show ?thesis by simp
    qed
  qed
qed

lemma timeline_records_tool_calls:
  assumes "timeline_records st i es acc = Some r"
  shows "map Some (filter is_tool_call r) =
           map Some (filter is_tool_call acc) @
           concat (map (\<lambda>(j, e). tool_calls_of st j e) (enumerate i es))"
  using assms
proof (induction es arbitrary: i acc)
  case Nil
  then show ?case by simp
next
  case (Cons e es)
  then obtain t1 where s1: "timeline_record st i e acc = Some t1"
    and s2: "timeline_records st (Suc i) es t1 = Some r" by (auto split: Option.bind_splits)
  from Cons.IH[OF s2] timeline_record_tool_calls[OF s1] show ?case by simp
qed

text \<open>
  Claim C8, as amended.  The \<open>tool_use\<close> entries of a timeline are, in the order of the
  log, one for each tool call (a \<open>tool_use\<close> block that is not a structured question) of
  the assistant records that have a message and a timestamp, and no others.  The entry
  of a tool call carries the timestamp and the position of its record, the name of the
  block, and the summary of the block's arguments (and the builder throws where that
  summary throws).  The summary is the empty string when the block has no arguments;
  else it is made from the first of the argument fields \<open>command\<close>, \<open>file_path\<close>,
  \<open>pattern\<close>, \<open>query\<close>, \<open>url\<close>, \<open>content\<close> whose value is truthy, and from the
  serialization of the arguments when there is none.  A command, a query, a content and
  the serialization are cut to 120 code units; a file path and a URL are taken as they
  are and a pattern gets the prefix \<open>pattern: \<close>, all three at full length.  So a summary
  that is a string is at most 120 code units long unless it comes from a file path, a
  pattern or a URL.
\<close>

theorem tool_call_summary:
  "(buildSessionTimeline stringify parsedLines = Some entries \<longrightarrow>
      map Some (filter is_tool_call entries) =
        concat (map (\<lambda>(i, entry). tool_calls_of stringify i entry) (enumerate 0 parsedLines)))
   \<and> (\<not> nullish block \<longrightarrow>
        summarizeToolInput stringify block =
          (let input = field block ''input'' in
           if \<not> truthy input then Some (JStr [])
           else (case find (\<lambda>f. truthy (field input f)) priority_fields of
                   Some f \<Rightarrow> summary_of f (field input f)
                 | None \<Rightarrow> Some (JStr (take 120 (stringify input))))))
   \<and> (summarizeToolInput stringify block = Some (JStr t)
        \<and> find (\<lambda>f. truthy (field (field block ''input'') f)) priority_fields
             \<notin> {Some ''file_path'', Some ''pattern'', Some ''url''}
       \<longrightarrow> length t \<le> 120)"
proof (intro conjI impI)
  assume "buildSessionTimeline stringify parsedLines = Some entries"
  then have "timeline_records stringify 0 parsedLines [] = Some entries"
    by (simp add: buildSessionTimeline_def)
  from timeline_records_tool_calls[OF this]
  show "map Some (filter is_tool_call entries) =
        concat (map (\<lambda>(i, entry). tool_calls_of stringify i entry) (enumerate 0 parsedLines))"
    by simp
next
  assume "\<not> nullish block"
  then show "summarizeToolInput stringify block =
          (let input = field block ''input'' in
           if \<not> truthy input then Some (JStr [])
           else (case find (\<lambda>f. truthy (field input f)) priority_fields of
                   Some f \<Rightarrow> summary_of f (field input f)
                 | None \<Rightarrow> Some (JStr (take 120 (stringify input)))))"
    by (rule summarizeToolInput_priority)
next
  assume "summarizeToolInput stringify block = Some (JStr t)
        \<and> find (\<lambda>f. truthy (field (field block ''input'') f)) priority_fields
             \<notin> {Some ''file_path'', Some ''pattern'', Some ''url''}"
  then show "length t \<le> 120" using summarizeToolInput_truncated by blast
qed

text \<open>
  C8 as amended, on the log \<open>tool_log\<close>: the shell call of the first record, which names a
  command and a file path, yields the one \<open>tool_use\<close> entry of the timeline, and the
  command wins; the copies of the call in the user record and in the record without a
  timestamp yield nothing.
\<close>

theorem tool_call_summary_witness:
  "buildSessionTimeline sample_stringify tool_log
     = Some [assistant_text (JStr ''t0'') ''Let me look'' 0,
             tool_use (JStr ''t0'') (JStr ''Bash'') (JStr ''ls'') 0,
             ask_user_question (JStr ''t0'') (JStr ''X'') (JArr [question_obj ''Proceed?'']) 0]
   \<and> concat (map (\<lambda>(i, entry). tool_calls_of sample_stringify i entry) (enumerate 0 tool_log))
       = [Some (tool_use (JStr ''t0'') (JStr ''Bash'') (JStr ''ls'') 0)]
   \<and> \<not> nullish shell_block
   \<and> find (\<lambda>f. truthy (field (field shell_block ''input'') f)) priority_fields = Some ''command''
   \<and> summarizeToolInput sample_stringify shell_block = Some (JStr ''ls'')
   \<and> length ''ls'' \<le> 120"
proof -
  have E: "buildSessionTimeline sample_stringify tool_log
     = Some [assistant_text (JStr ''t0'') ''Let me look'' 0,
             tool_use (JStr ''t0'') (JStr ''Bash'') (JStr ''ls'') 0,
             ask_user_question (JStr ''t0'') (JStr ''X'') (JArr [question_obj ''Proceed?'']) 0]"
    by code_simp
  have h3: "\<not> nullish shell_block" by code_simp
  have h4: "find (\<lambda>f. truthy (field (field shell_block ''input'') f)) priority_fields = Some ''command''"
    by code_simp
  have h5: "summary_of ''command'' (field (field shell_block ''input'') ''command'') = Some (JStr ''ls'')"
    by code_simp
  have h6: "truthy (field shell_block ''input'')" by code_simp
  note T = tool_call_summary[of sample_stringify tool_log
      "[assistant_text (JStr ''t0'') ''Let me look'' 0,
        tool_use (JStr ''t0'') (JStr ''Bash'') (JStr ''ls'') 0,
        ask_user_question (JStr ''t0'') (JStr ''X'') (JArr [question_obj ''Proceed?'']) 0]"
      shell_block "''ls''"]
  from mp[OF conjunct1[OF T] E]
  have c0: "concat (map (\<lambda>(i, entry). tool_calls_of sample_stringify i entry) (enumerate 0 tool_log))
       = [Some (tool_use (JStr ''t0'') (JStr ''Bash'') (JStr ''ls'') 0)]" by simp
  from mp[OF conjunct1[OF conjunct2[OF T]] h3]
  have c1: "summarizeToolInput sample_stringify shell_block = Some (JStr ''ls'')"
    by (simp add: Let_def h4 h5 h6)
  from conjunct2[OF conjunct2[OF T]] c1 h4 have c3: "length ''ls'' \<le> 120" by simp
  from E c0 h3 h4 c1 c3 show ?thesis by (intro conjI)
qed

text \<open>
  The claim C8 as it is stated fails: for a call whose argument is a file path of 121
  characters, the summary is the whole path, longer than the 120 code units to which the
  other summaries are cut.
\<close>

theorem tool_call_summary_counterexample:
  "summarizeToolInput sample_stringify long_path_block = Some (JStr (replicate 121 (CHR ''a'')))
   \<and> length (replicate 121 (CHR ''a'')) = 121
   \<and> buildSessionTimeline sample_stringify
        [record_of ''assistant'' (JArr [long_path_block]) [(''timestamp'', JStr ''t0'')]]
       = Some [tool_use (JStr ''t0'') (JStr ''Read'') (JStr (replicate 121 (CHR ''a''))) 0]"
  by code_simp

section \<open>The Timeline Builder: narrative text\<close>

lemma remove_tags_no_tag: "CHR ''<'' \<notin> set s \<Longrightarrow> remove_tags s = s"
  by (induction s) (auto simp: Let_def)

lemma trim_empty_iff: "trim s = [] \<longleftrightarrow> (\<forall>c\<in>set s. is_space c)"
proof
  assume "trim s = []"
  then have a: "\<forall>c\<in>set (dropWhile is_space s). is_space c"
    by (simp add: trim_def dropWhile_eq_Nil_conv)
  have "dropWhile is_space s = []"
  proof (rule ccontr)
    assume ne: "dropWhile is_space s \<noteq> []"
    then have "\<not> is_space (hd (dropWhile is_space s))" by (rule hd_dropWhile)
    moreover have "hd (dropWhile is_space s) \<in> set (dropWhile is_space s)" using ne by simp
    ultimately show False using a by blast
  qed
  then show "\<forall>c\<in>set s. is_space c" by (simp add: dropWhile_eq_Nil_conv)
next
  assume "\<forall>c\<in>set s. is_space c"
  then show "trim s = []" by (auto simp: trim_def dropWhile_eq_Nil_conv dest: set_dropWhileD)
qed

lemma trim_empty_cleaned:
  assumes "trim s = []"
  shows "trim (remove_tags s) = []"
proof -
  from assms have sp: "\<forall>c\<in>set s. is_space c" by (simp add: trim_empty_iff)
  have "\<not> is_space (CHR ''<'')" by (simp add: is_space_def)
  with sp have "CHR ''<'' \<notin> set s" by blast
  then have "remove_tags s = s" by (rule remove_tags_no_tag)
  with assms show ?thesis by simp
qed

lemma user_block_text:
  assumes "field block ''type'' = JStr ''text''" "field block ''text'' = JStr s"
  shows "user_block i entry block acc =
           Some (if length (trim (remove_tags s)) < 3 \<or> is_boilerplate (trim (remove_tags s))
                 then acc
                 else acc @ [user_text (field entry ''timestamp'') (trim (remove_tags s)) i])"
proof -
  from assms(1) have nn: "\<not> nullish block" by (rule field_JStr_not_nullish)
  have trim_nil: "trim [] = []" by (simp add: trim_def)
  show ?thesis
  proof (cases "s = []")
    case True
    with assms nn show ?thesis by (simp add: user_block_def getp_def stripTags_def trim_nil)
  next
    case False
    with assms nn show ?thesis by (simp add: user_block_def getp_def stripTags_def)
  qed
qed

lemma assistant_block_text:
  assumes "field block ''type'' = JStr ''text''" "field block ''text'' = JStr s"
  shows "assistant_block stringify i entry block acc =
           Some (if length (trim (remove_tags s)) < 3
                 then acc
                 else acc @ [assistant_text (field entry ''timestamp'') (trim (remove_tags s)) i])"
proof -
  from assms(1) have nn: "\<not> nullish block" by (rule field_JStr_not_nullish)
  show ?thesis
  proof (cases "trim s = []")
    case True
    then have "trim (remove_tags s) = []" by (rule trim_empty_cleaned)
    with True assms nn show ?thesis
      by (simp add: assistant_block_def getp_def opt_trim_def)
  next
    case False
    then have "s \<noteq> []" by (auto simp: trim_def)
    with False assms nn show ?thesis
      by (simp add: assistant_block_def getp_def opt_trim_def stripTags_def)
  qed
qed

lemma user_string_content:
  assumes "\<not> nullish entry" "truthy (field entry ''message'')" "truthy (field entry ''timestamp'')"
    and "field entry ''type'' = JStr ''user''"
    and "field (field entry ''message'') ''content'' = JStr s"
  shows "timeline_record stringify i entry acc =
           Some (if length (trim (remove_tags s)) < 3
                 then acc
                 else acc @ [user_text (field entry ''timestamp'') (trim (remove_tags s)) i])"
proof -
  have trim_nil: "trim [] = []" by (simp add: trim_def)
  show ?thesis
  proof (cases "s = []")
    case True
    with assms show ?thesis
      by (simp add: timeline_record_def getp_def Let_def stripTags_def trim_nil)
  next
    case False
    with assms show ?thesis
      by (auto simp: timeline_record_def getp_def Let_def stripTags_def)
  qed
qed

lemma cleaned_text_JStr: "field b ''text'' = JStr s \<Longrightarrow> cleaned_text b = trim (remove_tags s)"
  by (simp add: cleaned_text_def)

lemma trim_Nil: "trim [] = []"
  by (simp add: trim_def)

lemma opt_trim_Some: "opt_trim v = Some x \<Longrightarrow> nullish v \<or> (\<exists>s. v = JStr s)"
  by (cases v) (auto simp: opt_trim_def)

lemma nullish_cleaned: "nullish (field b ''text'') \<Longrightarrow> cleaned_text b = []"
  by (cases "field b ''text''") (auto simp: cleaned_text_def)

lemma assistant_block_texts:
  assumes "assistant_block st i e b acc = Some r"
  shows "filter is_assistant_text r =
           filter is_assistant_text acc @
           (if field b ''type'' = JStr ''text'' \<and> 3 \<le> length (cleaned_text b)
            then [assistant_text (field e ''timestamp'') (cleaned_text b) i] else [])
         \<and> filter is_user_text r = filter is_user_text acc"
proof (cases "field b ''type'' = JStr ''text''")
  case False
  with assms show ?thesis
    by (auto simp: assistant_block_def getp_Some split: Option.bind_splits if_splits)
next
  case True
  then have nn: "\<not> nullish b" by (rule field_JStr_not_nullish)
  from assms True nn obtain x where "opt_trim (field b ''text'') = Some x"
    by (auto simp: assistant_block_def getp_def split: Option.bind_splits if_splits)
  from opt_trim_Some[OF this] show ?thesis
  proof
    assume n: "nullish (field b ''text'')"
    then have "opt_trim (field b ''text'') = Some JUndefined" by (simp add: opt_trim_def)
    with assms True nn have "r = acc" by (simp add: assistant_block_def getp_def)
    with n show ?thesis by (simp add: nullish_cleaned)
  next
    assume "\<exists>s. field b ''text'' = JStr s"
    then obtain s where s: "field b ''text'' = JStr s" ..
    from assistant_block_text[OF True s, of st i e acc] assms
    have "r = (if length (trim (remove_tags s)) < 3 then acc
               else acc @ [assistant_text (field e ''timestamp'') (trim (remove_tags s)) i])" by simp
    with True s show ?thesis by (simp add: cleaned_text_JStr)
  qed
qed

lemma assistant_blocks_texts:
  assumes "assistant_blocks st i e bs acc = Some r"
  shows "filter is_assistant_text r =
           filter is_assistant_text acc @
           map (\<lambda>b. assistant_text (field e ''timestamp'') (cleaned_text b) i)
             (filter (\<lambda>b. field b ''type'' = JStr ''text'' \<and> 3 \<le> length (cleaned_text b)) bs)
         \<and> filter is_user_text r = filter is_user_text acc"
  using assms
proof (induction bs arbitrary: acc)
  case Nil
  then show ?case by simp
next
  case (Cons b bs)
  then obtain t1 where s1: "assistant_block st i e b acc = Some t1"
    and s2: "assistant_blocks st i e bs t1 = Some r" by (auto split: Option.bind_splits)
  from Cons.IH[OF s2] assistant_block_texts[OF s1] show ?case by simp
qed

lemma user_block_texts:
  assumes "user_block i e b acc = Some r"
  shows "filter is_user_text r =
           filter is_user_text acc @
           (if field b ''type'' = JStr ''text'' \<and> 3 \<le> length (cleaned_text b)
               \<and> \<not> is_boilerplate (cleaned_text b)
            then [user_text (field e ''timestamp'') (cleaned_text b) i] else [])
         \<and> filter is_assistant_text r = filter is_assistant_text acc"
proof (cases "field b ''type'' = JStr ''text''")
  case False
  with assms show ?thesis
    by (auto simp: user_block_def getp_Some split: Option.bind_splits if_splits)
next
  case True
  then have nn: "\<not> nullish b" by (rule field_JStr_not_nullish)
  show ?thesis
  proof (cases "truthy (field b ''text'')")
    case F: False
    with assms True nn have "r = acc"
      by (simp add: user_block_def getp_def stripTags_def)
    moreover have "cleaned_text b = []"
      using F by (cases "field b ''text''") (auto simp: cleaned_text_def trim_Nil)
    ultimately show ?thesis by simp
  next
    case T: True
    with assms True nn obtain s where s: "field b ''text'' = JStr s"
      by (cases "field b ''text''")
         (auto simp: user_block_def getp_def stripTags_def split: Option.bind_splits)
    from user_block_text[OF True s, of i e acc] assms
    have "r = (if length (trim (remove_tags s)) < 3 \<or> is_boilerplate (trim (remove_tags s)) then acc
               else acc @ [user_text (field e ''timestamp'') (trim (remove_tags s)) i])" by simp
    with True s show ?thesis by (simp add: cleaned_text_JStr)
  qed
qed

lemma user_blocks_texts:
  assumes "user_blocks i e bs acc = Some r"
  shows "filter is_user_text r =
           filter is_user_text acc @
           map (\<lambda>b. user_text (field e ''timestamp'') (cleaned_text b) i)
             (filter (\<lambda>b. field b ''type'' = JStr ''text'' \<and> 3 \<le> length (cleaned_text b)
                           \<and> \<not> is_boilerplate (cleaned_text b)) bs)
         \<and> filter is_assistant_text r = filter is_assistant_text acc"
  using assms
proof (induction bs arbitrary: acc)
  case Nil
  then show ?case by simp
next
  case (Cons b bs)
  then obtain t1 where s1: "user_block i e b acc = Some t1"
    and s2: "user_blocks i e bs t1 = Some r" by (auto split: Option.bind_splits)
  from Cons.IH[OF s2] user_block_texts[OF s1] show ?case by simp
qed

lemma timeline_record_texts:
  assumes "timeline_record st i e acc = Some r"
  shows "filter is_assistant_text r = filter is_assistant_text acc @ assistant_texts_of i e
         \<and> filter is_user_text r = filter is_user_text acc @ user_texts_of i e"
proof -
  from assms have nn: "\<not> nullish e" by (auto simp: timeline_record_def getp_Some split: Option.bind_splits)
  show ?thesis
  proof (cases "truthy (field e ''message'') \<and> truthy (field e ''timestamp'')")
    case False
    with assms nn have r: "r = acc" by (auto simp: timeline_record_def getp_def)
    have "assistant_texts_of i e = [] \<and> user_texts_of i e = []"
    proof (cases "truthy (field e ''timestamp'')")
      case True
      with False have c: "field (field e ''message'') ''content'' = JUndefined" by (simp add: falsy_field)
      then have "blocks_of ''assistant'' e = []" by (simp add: blocks_of_def)
      then show ?thesis using c by (simp add: assistant_texts_of_def user_texts_of_def)
    next
      case False
      then show ?thesis by (simp add: assistant_texts_of_def user_texts_of_def)
    qed
    with r show ?thesis by simp
  next
    case True
    then have ts: "truthy (field e ''timestamp'')" and ms: "truthy (field e ''message'')" by simp_all
    show ?thesis
    proof (cases "field e ''type'' = JStr ''assistant''")
      case A: True
      then have ut: "user_texts_of i e = []" by (simp add: user_texts_of_def)
      show ?thesis
      proof (cases "field (field e ''message'') ''content''")
        case (JArr bs)
        with assms nn ts ms A have "assistant_blocks st i e bs acc = Some r"
          by (simp add: timeline_record_def getp_def Let_def)
        from assistant_blocks_texts[OF this] show ?thesis
          using A JArr ts ut by (simp add: assistant_texts_of_def blocks_of_def)
      qed (use assms nn ts ms A ut in \<open>simp_all add: timeline_record_def getp_def Let_def assistant_texts_of_def blocks_of_def\<close>)
    next
      case NA: False
      then have at: "assistant_texts_of i e = []" by (simp add: assistant_texts_of_def blocks_of_def)
      show ?thesis
      proof (cases "field e ''type'' = JStr ''user''")
        case U: True
        show ?thesis
        proof (cases "field (field e ''message'') ''content''")
          case (JArr bs)
          with assms nn ts ms U have "user_blocks i e bs acc = Some r"
            by (simp add: timeline_record_def getp_def Let_def)
          from user_blocks_texts[OF this] show ?thesis
            using U JArr ts at by (simp add: user_texts_of_def)
        next
          case (JStr s)
          from user_string_content[OF nn ms ts U JStr, of st i acc] assms
          have "r = (if length (trim (remove_tags s)) < 3 then acc
                     else acc @ [user_text (field e ''timestamp'') (trim (remove_tags s)) i])" by simp
          then show ?thesis using U JStr ts at by (simp add: user_texts_of_def)
        qed (use assms nn ts ms U at in \<open>simp_all add: timeline_record_def getp_def Let_def user_texts_of_def\<close>)
      next
        case False
        with assms nn ts ms NA have "r = acc"
          by (auto simp: timeline_record_def getp_def Let_def split: if_splits)
        with False at show ?thesis by (simp add: user_texts_of_def)
      qed
    qed
  qed
qed

lemma timeline_records_texts:
  assumes "timeline_records st i es acc = Some r"
  shows "filter is_assistant_text r =
           filter is_assistant_text acc @ concat (map (\<lambda>(j, e). assistant_texts_of j e) (enumerate i es))
         \<and> filter is_user_text r =
           filter is_user_text acc @ concat (map (\<lambda>(j, e). user_texts_of j e) (enumerate i es))"
  using assms
proof (induction es arbitrary: i acc)
  case Nil
  then show ?case by simp
next
  case (Cons e es)
  then obtain t1 where s1: "timeline_record st i e acc = Some t1"
    and s2: "timeline_records st (Suc i) es t1 = Some r" by (auto split: Option.bind_splits)
  from Cons.IH[OF s2] timeline_record_texts[OF s1] show ?case by simp
qed

text \<open>
  Claim C9, as amended.  The narrative entries of a timeline are, in the order of the
  log, these and no others.  An \<open>assistant_text\<close> entry for each text block of an
  assistant record whose cleaned text (tags removed, white space trimmed) has at least
  three code units.  A \<open>user_text\<close> entry for each text block of a user record whose
  cleaned text has at least three code units and does not start with one of the
  boilerplate words, and one for a user record whose content is a plain string with a
  cleaned text of at least three code units.  The records are those that have a message
  and a timestamp; each entry carries the timestamp and the position of its record and
  the cleaned text.  So a text with a short cleaned text, and a text block of a user
  record that starts with a boilerplate word, yield no entry at all; the text of an
  assistant record and a plain-string content are not tested for the boilerplate words.
\<close>

theorem narrative_text_blocks:
  "buildSessionTimeline stringify parsedLines = Some entries \<longrightarrow>
      filter is_assistant_text entries =
        concat (map (\<lambda>(i, entry). assistant_texts_of i entry) (enumerate 0 parsedLines))
      \<and> filter is_user_text entries =
        concat (map (\<lambda>(i, entry). user_texts_of i entry) (enumerate 0 parsedLines))"
proof
  assume "buildSessionTimeline stringify parsedLines = Some entries"
  then have "timeline_records stringify 0 parsedLines [] = Some entries"
    by (simp add: buildSessionTimeline_def)
  from timeline_records_texts[OF this]
  show "filter is_assistant_text entries =
        concat (map (\<lambda>(i, entry). assistant_texts_of i entry) (enumerate 0 parsedLines))
      \<and> filter is_user_text entries =
        concat (map (\<lambda>(i, entry). user_texts_of i entry) (enumerate 0 parsedLines))"
    by simp
qed

text \<open>
  C9 as amended, on the log \<open>narrative_log\<close>.  The text \<open>Today is fine\<close>, wrapped in a tag,
  is suppressed as a block of the user record and emitted as a block of the assistant
  record and as the plain-string content of the last record; \<open>Hello there\<close> is emitted
  and \<open>ok\<close> is suppressed in both records.
\<close>

theorem narrative_text_blocks_witness:
  "buildSessionTimeline sample_stringify narrative_log
     = Some [user_text (JStr ''t0'') ''Hello there'' 0,
             assistant_text (JStr ''t1'') ''Today is fine'' 1,
             user_text (JStr ''t2'') ''Today is fine'' 2]
   \<and> concat (map (\<lambda>(i, entry). assistant_texts_of i entry) (enumerate 0 narrative_log))
       = [assistant_text (JStr ''t1'') ''Today is fine'' 1]
   \<and> concat (map (\<lambda>(i, entry). user_texts_of i entry) (enumerate 0 narrative_log))
       = [user_text (JStr ''t0'') ''Hello there'' 0, user_text (JStr ''t2'') ''Today is fine'' 2]
   \<and> cleaned_text (text_block ''<b>Today is fine</b> '') = ''Today is fine''
   \<and> is_boilerplate ''Today is fine''"
proof -
  have E: "buildSessionTimeline sample_stringify narrative_log
     = Some [user_text (JStr ''t0'') ''Hello there'' 0,
             assistant_text (JStr ''t1'') ''Today is fine'' 1,
             user_text (JStr ''t2'') ''Today is fine'' 2]"
    by code_simp
  note T = narrative_text_blocks[of sample_stringify narrative_log
      "[user_text (JStr ''t0'') ''Hello there'' 0,
        assistant_text (JStr ''t1'') ''Today is fine'' 1,
        user_text (JStr ''t2'') ''Today is fine'' 2]"]
  from mp[OF T E]
  have c1: "concat (map (\<lambda>(i, entry). assistant_texts_of i entry) (enumerate 0 narrative_log))
       = [assistant_text (JStr ''t1'') ''Today is fine'' 1]"
    and c2: "concat (map (\<lambda>(i, entry). user_texts_of i entry) (enumerate 0 narrative_log))
       = [user_text (JStr ''t0'') ''Hello there'' 0, user_text (JStr ''t2'') ''Today is fine'' 2]"
    by simp_all
  have h3: "cleaned_text (text_block ''<b>Today is fine</b> '') = ''Today is fine''" by code_simp
  have h4: "is_boilerplate ''Today is fine''" by code_simp
  from E c1 c2 h3 h4 show ?thesis by (intro conjI)
qed

text \<open>
  The claim C9 as it is stated fails: the text \<open>Today is fine\<close> of an assistant record
  starts with a boilerplate word and is emitted.
\<close>

theorem narrative_text_blocks_counterexample:
  "buildSessionTimeline sample_stringify today_log
     = Some [assistant_text (JStr ''t0'') ''Today is fine'' 0]
   \<and> trim (remove_tags ''Today is fine'') = ''Today is fine''
   \<and> is_boilerplate ''Today is fine''"
  by code_simp


section \<open>The Session Aggregator\<close>
























end
